theory Spec2Isabelle
  imports Main "HOL-Library.Word" "HOL-Library.Log_Nat"
begin

unbundle bit_operations_syntax

section \<open>Input text and cursors\<close>

text \<open>
  The input of every parser of \<^verbatim>\<open>jsonw.c\<close> is a \<^verbatim>\<open>char *\<close> into a buffer that ends
  with a zero byte. The buffer is modelled by the list \<open>txt\<close> of the bytes that come before
  that terminator, as \<^verbatim>\<open>test.c\<close> builds it (\<^verbatim>\<open>size\<close> bytes read from a file, then
  \<^verbatim>\<open>buf[size] = '\0'\<close>); a cursor is an offset into the buffer and \<^verbatim>\<open>NULL\<close> is \<open>None\<close>.
  Reading at offset \<open>length txt\<close> yields the terminator. A cursor the caller passes is
  taken to lie in the buffer; from there no parser moves a cursor over a zero byte and
  reads again (the section on cursors inside the text proves the bound), so offsets
  behind the terminator are never read. The text may hold zero bytes before its end, as
  a file read by \<^verbatim>\<open>test.c\<close> may: to the parsers the first of them is the terminator.
  Every function below takes the text first and then the arguments of the C function
  in their order.
\<close>

type_synonym cursor = "nat option"

definition peek :: "string \<Rightarrow> nat \<Rightarrow> char" where
  "peek txt i = (if i < length txt then txt ! i else CHR 0x00)"

section \<open>Basic parsers\<close>

definition jsonw_litchr :: "string \<Rightarrow> char \<Rightarrow> cursor \<Rightarrow> cursor" where
  "jsonw_litchr txt chr json =
     (case json of
        None \<Rightarrow> None
      | Some j \<Rightarrow> if peek txt j = chr then Some (Suc j) else None)"

text \<open>
  \<^verbatim>\<open>strncmp(json, str, strlen(str)) == 0\<close>: the literals passed as \<open>str\<close> hold no zero
  byte, so the comparison is equality of the first \<open>length str\<close> bytes, the terminator
  of the text counting as a mismatch.
\<close>

definition jsonw_litstr :: "string \<Rightarrow> string \<Rightarrow> cursor \<Rightarrow> cursor" where
  "jsonw_litstr txt str json =
     (case json of
        None \<Rightarrow> None
      | Some j \<Rightarrow>
          if map (peek txt) [j ..< j + length str] = str then Some (j + length str)
          else None)"

section \<open>Characters\<close>

text \<open>\<^verbatim>\<open>strchr(s, c)\<close> as a truth value: it also finds the terminator of \<open>s\<close>.\<close>

definition strchr :: "string \<Rightarrow> char \<Rightarrow> bool" where
  "strchr s c = (c \<in> set s \<or> c = CHR 0x00)"

definition ws_chars :: string where
  "ws_chars = [CHR 0x20, CHR 0x09, CHR 0x0A, CHR 0x0D]"

function ws_while :: "string \<Rightarrow> nat \<Rightarrow> nat" where
  "ws_while txt j =
     (if peek txt j \<noteq> CHR 0x00 \<and> strchr ws_chars (peek txt j) then ws_while txt (Suc j)
      else j)"
  by pat_completeness auto
termination
  by (relation "measure (\<lambda>(txt, j). length txt - j)") (auto simp: peek_def split: if_splits)

declare ws_while.simps [simp del]

definition jsonw_ws :: "string \<Rightarrow> cursor \<Rightarrow> cursor" where
  "jsonw_ws txt json = (case json of None \<Rightarrow> None | Some j \<Rightarrow> Some (ws_while txt j))"

text \<open>The macro \<^verbatim>\<open>WSCHRWS\<close>.\<close>

definition WSCHRWS :: "string \<Rightarrow> char \<Rightarrow> cursor \<Rightarrow> cursor" where
  "WSCHRWS txt chr json = jsonw_ws txt (jsonw_litchr txt chr (jsonw_ws txt json))"

definition jsonw_beginarr :: "string \<Rightarrow> cursor \<Rightarrow> cursor" where
  "jsonw_beginarr txt json = WSCHRWS txt (CHR ''['') json"

definition jsonw_endarr :: "string \<Rightarrow> cursor \<Rightarrow> cursor" where
  "jsonw_endarr txt json = WSCHRWS txt (CHR '']'') json"

definition jsonw_beginobj :: "string \<Rightarrow> cursor \<Rightarrow> cursor" where
  "jsonw_beginobj txt json = WSCHRWS txt (CHR ''{'') json"

definition jsonw_endobj :: "string \<Rightarrow> cursor \<Rightarrow> cursor" where
  "jsonw_endobj txt json = WSCHRWS txt (CHR ''}'') json"

definition jsonw_namesep :: "string \<Rightarrow> cursor \<Rightarrow> cursor" where
  "jsonw_namesep txt json = WSCHRWS txt (CHR '':'') json"

definition jsonw_valuesep :: "string \<Rightarrow> cursor \<Rightarrow> cursor" where
  "jsonw_valuesep txt json = WSCHRWS txt (CHR '','') json"

definition jsonw_beginstr :: "string \<Rightarrow> cursor \<Rightarrow> cursor" where
  "jsonw_beginstr txt json = jsonw_litchr txt (CHR 0x22) json"

definition jsonw_endstr :: "string \<Rightarrow> cursor \<Rightarrow> cursor" where
  "jsonw_endstr txt json = jsonw_litchr txt (CHR 0x22) json"

section \<open>Null and booleans\<close>

definition jsonw_null :: "string \<Rightarrow> cursor \<Rightarrow> cursor" where
  "jsonw_null txt json = jsonw_litstr txt ''null'' json"

text \<open>
  An out-parameter is modelled by state passing: the function takes the value its
  pointee holds before the call and returns, beside the cursor, the value it holds
  after. A caller that passes \<^verbatim>\<open>NULL\<close> makes \<^verbatim>\<open>OUT_PARAM\<close> redirect the pointer to a
  local that is written and never read; such a call is modelled by passing any value
  and dropping the second component.
\<close>

definition jsonw_boolean :: "string \<Rightarrow> bool \<Rightarrow> cursor \<Rightarrow> cursor \<times> bool" where
  "jsonw_boolean txt b json =
     (case jsonw_litstr txt ''true'' json of
        Some j \<Rightarrow> (Some j, True)
      | None \<Rightarrow>
          (case jsonw_litstr txt ''false'' json of
             Some j \<Rightarrow> (Some j, False)
           | None \<Rightarrow> (None, b)))"

section \<open>Numbers\<close>

subsection \<open>The type \<^verbatim>\<open>double\<close>\<close>

text \<open>
  \<^verbatim>\<open>double\<close> is taken to be IEEE 754 binary64 with every operation rounded to nearest,
  ties to even, and no excess precision. A finite value is the rational number it
  denotes (the two zeros are not told apart; they compare equal in C). \<open>round_double\<close>
  rounds a rational to the nearest representable value \<open>m * 2 ^ e\<close>: 53 significant
  bits, the least exponent \<open>- 1074\<close> that of the subnormals. The largest finite value is
  \<open>(2 ^ 53 - 1) * 2 ^ 971\<close>; a result of \<open>2 ^ 53 * 2 ^ 971\<close> or more is an infinity.
\<close>

datatype double = Fin rat | PInf | NInf | NaN

text \<open>The integer part of the binary logarithm of a positive rational.\<close>

definition ilog2 :: "rat \<Rightarrow> int" where
  "ilog2 a = (if 1 \<le> a then bitlen \<lfloor>a\<rfloor> - 1 else - bitlen (\<lceil>1 / a\<rceil> - 1))"

definition round_half_even :: "rat \<Rightarrow> int" where
  "round_half_even q =
     (let f = \<lfloor>q\<rfloor>; d = q - of_int f
      in if d < 1 / 2 then f else if 1 / 2 < d then f + 1 else if even f then f else f + 1)"

definition round_double :: "rat \<Rightarrow> double" where
  "round_double r =
     (if r = 0 then Fin 0
      else
        let a = \<bar>r\<bar>;
            e = max (ilog2 a - 52) (- 1074);
            m = round_half_even (a / 2 powi e)
        in if 971 < e \<or> (e = 971 \<and> 2 ^ 53 \<le> m) then (if r < 0 then NInf else PInf)
           else Fin (sgn r * of_int m * 2 powi e))"

text \<open>
  The arithmetic of \<^verbatim>\<open>jsonw_number\<close> has a \<^verbatim>\<open>double\<close> on the left and an \<^verbatim>\<open>int\<close> on the
  right (\<^verbatim>\<open>10\<close>, a digit, a sign), which C converts to \<^verbatim>\<open>double\<close> without loss.
\<close>

definition double_mul_int :: "double \<Rightarrow> int \<Rightarrow> double" where
  "double_mul_int d i =
     (case d of
        Fin x \<Rightarrow> round_double (x * of_int i)
      | PInf \<Rightarrow> if i = 0 then NaN else if 0 < i then PInf else NInf
      | NInf \<Rightarrow> if i = 0 then NaN else if 0 < i then NInf else PInf
      | NaN \<Rightarrow> NaN)"

definition double_add_int :: "double \<Rightarrow> int \<Rightarrow> double" where
  "double_add_int d i = (case d of Fin x \<Rightarrow> round_double (x + of_int i) | _ \<Rightarrow> d)"

definition double_div_int :: "double \<Rightarrow> int \<Rightarrow> double" where
  "double_div_int d i =
     (case d of
        Fin x \<Rightarrow>
          if i \<noteq> 0 then round_double (x / of_int i)
          else if x = 0 then NaN else if 0 < x then PInf else NInf
      | PInf \<Rightarrow> if 0 \<le> i then PInf else NInf
      | NInf \<Rightarrow> if 0 \<le> i then NInf else PInf
      | NaN \<Rightarrow> NaN)"

subsection \<open>Digit runs\<close>

text \<open>
  The functions of \<^verbatim>\<open><ctype.h>\<close> in the C locale, on the byte read as an
  \<^verbatim>\<open>unsigned char\<close>: no byte from \<^verbatim>\<open>0x80\<close> on is a digit or a letter.
\<close>

definition isdigit :: "char \<Rightarrow> bool" where
  "isdigit c = (48 \<le> (of_char c :: nat) \<and> (of_char c :: nat) \<le> 57)"

text \<open>\<^verbatim>\<open>*json - '0'\<close>\<close>

definition digit_of :: "char \<Rightarrow> int" where
  "digit_of c = int (of_char c) - 48"

text \<open>
  The macro \<^verbatim>\<open>DIGIT_PLUS\<close> is used at two types: on the \<^verbatim>\<open>double\<close> significand and on
  the \<^verbatim>\<open>unsigned short\<close> exponent, taken to be 16 bits wide, where the arithmetic is done
  in \<^verbatim>\<open>int\<close> and the assignment reduces it modulo \<open>2 ^ 16\<close>. Each use is the \<^verbatim>\<open>for\<close> loop
  behind the test for a first digit.
\<close>

function digits_double :: "string \<Rightarrow> double \<Rightarrow> nat \<Rightarrow> double \<times> nat" where
  "digits_double txt v j =
     (if isdigit (peek txt j)
      then digits_double txt (double_add_int (double_mul_int v 10) (digit_of (peek txt j))) (Suc j)
      else (v, j))"
  by pat_completeness auto
termination
  by (relation "measure (\<lambda>(txt, v, j). length txt - j)")
     (auto simp: peek_def isdigit_def split: if_splits)

declare digits_double.simps [simp del]

definition DIGIT_PLUS_double :: "string \<Rightarrow> double \<Rightarrow> nat \<Rightarrow> (double \<times> nat) option" where
  "DIGIT_PLUS_double txt v j =
     (if \<not> isdigit (peek txt j) then None else Some (digits_double txt v j))"

function digits_ushort :: "string \<Rightarrow> 16 word \<Rightarrow> nat \<Rightarrow> 16 word \<times> nat" where
  "digits_ushort txt v j =
     (if isdigit (peek txt j)
      then digits_ushort txt (v * 10 + word_of_int (digit_of (peek txt j))) (Suc j)
      else (v, j))"
  by pat_completeness auto
termination
  by (relation "measure (\<lambda>(txt, v, j). length txt - j)")
     (auto simp: peek_def isdigit_def split: if_splits)

declare digits_ushort.simps [simp del]

definition DIGIT_PLUS_ushort :: "string \<Rightarrow> 16 word \<Rightarrow> nat \<Rightarrow> (16 word \<times> nat) option" where
  "DIGIT_PLUS_ushort txt v j =
     (if \<not> isdigit (peek txt j) then None else Some (digits_ushort txt v j))"

subsection \<open>Scaling by the exponent\<close>

text \<open>
  The two final loops of \<^verbatim>\<open>jsonw_number\<close> read the \<^verbatim>\<open>unsigned short\<close> exponent as a
  \<^verbatim>\<open>short\<close> (\<open>sint\<close>), and count it up or down to zero.
\<close>

lemma sint_pred: "0 < sint (e :: 16 word) \<Longrightarrow> sint (e - 1) = sint e - 1"
  using sint_lt [of e] by (simp add: sint_word_ariths signed_take_bit_int_eq_self)

lemma sint_succ: "sint (e :: 16 word) < 0 \<Longrightarrow> sint (e + 1) = sint e + 1"
  using sint_ge [of e] by (simp add: sint_word_ariths signed_take_bit_int_eq_self)

function scale_up :: "16 word \<Rightarrow> double \<Rightarrow> 16 word \<times> double" where
  "scale_up exponent significand =
     (if 0 < sint exponent then scale_up (exponent - 1) (double_mul_int significand 10)
      else (exponent, significand))"
  by pat_completeness auto
termination
  by (relation "measure (\<lambda>(e, s). nat (sint e))") (auto simp: sint_pred)

declare scale_up.simps [simp del]

function scale_down :: "16 word \<Rightarrow> double \<Rightarrow> 16 word \<times> double" where
  "scale_down exponent significand =
     (if sint exponent < 0 then scale_down (exponent + 1) (double_div_int significand 10)
      else (exponent, significand))"
  by pat_completeness auto
termination
  by (relation "measure (\<lambda>(e, s). nat (- sint e))") (auto simp: sint_succ)

declare scale_down.simps [simp del]

subsection \<open>\<^verbatim>\<open>jsonw_number\<close>\<close>

text \<open>
  The function is split at its four stages (sign, integer part, fraction, exponent);
  each stage that can \<^verbatim>\<open>return NULL\<close> yields \<open>None\<close>. \<open>num\<close> is the value the
  out-parameter's pointee holds before the call.
\<close>

definition number_sign :: "string \<Rightarrow> nat \<Rightarrow> int \<times> nat" where
  "number_sign txt j = (if peek txt j = CHR ''-'' then (- 1, Suc j) else (1, j))"

definition number_int :: "string \<Rightarrow> nat \<Rightarrow> (double \<times> nat) option" where
  "number_int txt j =
     (if peek txt j = CHR ''0'' then Some (Fin 0, Suc j) else DIGIT_PLUS_double txt (Fin 0) j)"

definition number_frac :: "string \<Rightarrow> double \<Rightarrow> nat \<Rightarrow> (double \<times> 16 word \<times> nat) option" where
  "number_frac txt significand j =
     (if peek txt j = CHR ''.''
      then (case DIGIT_PLUS_double txt significand (Suc j) of
              None \<Rightarrow> None
            | Some (significand', j') \<Rightarrow> Some (significand', of_nat (j' - Suc j), j'))
      else Some (significand, 0, j))"

definition number_exp :: "string \<Rightarrow> nat \<Rightarrow> (16 word \<times> nat) option" where
  "number_exp txt j =
     (if peek txt j = CHR ''e'' \<or> peek txt j = CHR ''E''
      then (let (sign, j') =
                  (if peek txt (Suc j) = CHR ''-'' then (- 1 :: int, Suc (Suc j))
                   else if peek txt (Suc j) = CHR ''+'' then (1, Suc (Suc j))
                   else (1, Suc j))
            in case DIGIT_PLUS_ushort txt 0 j' of
                 None \<Rightarrow> None
               | Some (exponent, j'') \<Rightarrow> Some (exponent * word_of_int sign, j''))
      else Some (0, j))"

definition jsonw_number :: "string \<Rightarrow> double \<Rightarrow> cursor \<Rightarrow> cursor \<times> double" where
  "jsonw_number txt num json =
     (case json of
        None \<Rightarrow> (None, num)
      | Some j0 \<Rightarrow>
          (let (sign, j1) = number_sign txt j0
           in case number_int txt j1 of
                None \<Rightarrow> (None, num)
              | Some (s1, j2) \<Rightarrow>
                  (case number_frac txt s1 j2 of
                     None \<Rightarrow> (None, num)
                   | Some (s2, shift, j3) \<Rightarrow>
                       (case number_exp txt j3 of
                          None \<Rightarrow> (None, num)
                        | Some (exponent, j4) \<Rightarrow>
                            (let (e1, s3) = scale_up (exponent - shift) (double_mul_int s2 sign);
                                 (e2, s4) = scale_down e1 s3
                             in (Some j4, s4))))))"

section \<open>Strings\<close>

subsection \<open>\<^verbatim>\<open>jsonw_character\<close>\<close>

definition isxdigit :: "char \<Rightarrow> bool" where
  "isxdigit c =
     (isdigit c \<or> (97 \<le> (of_char c :: nat) \<and> (of_char c :: nat) \<le> 102)
                \<or> (65 \<le> (of_char c :: nat) \<and> (of_char c :: nat) \<le> 70))"

definition tolower :: "char \<Rightarrow> int" where
  "tolower c =
     (if 65 \<le> (of_char c :: nat) \<and> (of_char c :: nat) \<le> 90 then int (of_char c) + 32
      else int (of_char c))"

text \<open>
  The loop \<^verbatim>\<open>for (int i = 0; i < 4; i++)\<close> over the four hexadecimal digits of a
  \<^verbatim>\<open>\u\<close> escape, on the \<^verbatim>\<open>unsigned short\<close> code point; \<open>None\<close> is its \<^verbatim>\<open>return NULL\<close>.
\<close>

function hex_for :: "nat \<Rightarrow> string \<Rightarrow> 16 word \<Rightarrow> nat \<Rightarrow> (16 word \<times> nat) option" where
  "hex_for i txt codepoint j =
     (if i < 4
      then (let codepoint' = push_bit 4 codepoint
            in if isdigit (peek txt j)
               then hex_for (Suc i) txt (codepoint' OR word_of_int (digit_of (peek txt j))) (Suc j)
               else if isxdigit (peek txt j)
               then hex_for (Suc i) txt
                      (codepoint' OR word_of_int (tolower (peek txt j) - 97 + 10)) (Suc j)
               else None)
      else Some (codepoint, j))"
  by pat_completeness auto
termination
  by (relation "measure (\<lambda>(i, txt, codepoint, j). 4 - i)") auto

declare hex_for.simps [simp del]

text \<open>
  \<open>chr\<close> is the byte the out-parameter's pointee holds before the call. After a backslash
  the \<^verbatim>\<open>switch\<close> reads the next byte and moves the cursor behind it, whatever the byte.
\<close>

definition jsonw_character :: "string \<Rightarrow> char \<Rightarrow> cursor \<Rightarrow> cursor \<times> char" where
  "jsonw_character txt chr json =
     (case json of
        None \<Rightarrow> (None, chr)
      | Some j \<Rightarrow>
          if peek txt j = CHR 0x5C
          then (let c = peek txt (Suc j); json' = Suc (Suc j)
                in if c = CHR 0x22 \<or> c = CHR 0x5C \<or> c = CHR ''/'' then (Some json', c)
                   else if c = CHR ''b'' then (Some json', CHR 0x08)
                   else if c = CHR ''f'' then (Some json', CHR 0x0C)
                   else if c = CHR ''n'' then (Some json', CHR 0x0A)
                   else if c = CHR ''r'' then (Some json', CHR 0x0D)
                   else if c = CHR ''t'' then (Some json', CHR 0x09)
                   else if c = CHR ''u''
                   then (case hex_for 0 txt 0 json' of
                           None \<Rightarrow> (None, chr)
                         | Some (codepoint, json'') \<Rightarrow>
                             (Some json'',
                              if codepoint \<le> 0x7f then char_of (unat codepoint) else CHR 0x00))
                   else (None, chr))
          else if 32 \<le> (of_char (peek txt j) :: nat) \<and> peek txt j \<noteq> CHR 0x22
          then (Some (Suc j), peek txt j)
          else (None, chr))"

text \<open>A character that is decoded moves the cursor forward, inside the text.\<close>

lemma hex_for_advance:
  "hex_for i t cp j = Some (cp', j') \<Longrightarrow> j \<le> j' \<and> (i < 4 \<longrightarrow> j < j' \<and> j < length t)"
proof (induction i t cp j rule: hex_for.induct)
  case (1 i t cp j)
  show ?case
  proof (cases "i < 4")
    case False
    with "1.prems" show ?thesis by (subst (asm) hex_for.simps) simp
  next
    case True
    note eq = "1.prems" [unfolded hex_for.simps [of i t cp j]]
    have nz: "isdigit (peek t j) \<or> isxdigit (peek t j)"
      using eq True by (auto simp: Let_def split: if_splits)
    then have "j < length t"
      by (auto simp: isxdigit_def isdigit_def peek_def split: if_splits)
    then show ?thesis
      using eq True "1.IH"
      by (auto simp: Let_def split: if_splits)
  qed
qed

lemma jsonw_character_advance:
  "jsonw_character txt chr (Some j) = (Some j', c) \<Longrightarrow> j < j' \<and> j < length txt"
  by (auto simp: jsonw_character_def Let_def peek_def split: if_splits option.splits
      dest!: hex_for_advance)

lemma jsonw_character_None: "jsonw_character t c None = (None, c)"
  by (simp add: jsonw_character_def)

subsection \<open>\<^verbatim>\<open>jsonw_string\<close> and \<^verbatim>\<open>jsonw_name\<close>\<close>

text \<open>
  The loop \<^verbatim>\<open>for (length = 0; j = jsonw_character(NULL, j); json = j) length++\<close>. Whenever
  its condition is evaluated \<^verbatim>\<open>j\<close> and \<^verbatim>\<open>json\<close> are equal, so one cursor stands for both;
  the loop returns the count and the last cursor at which a character was decoded. A
  counter of type \<^verbatim>\<open>size_t\<close> that counts characters, elements or members of the text is
  a \<open>nat\<close>: it is bounded by the length of the text and cannot wrap.
\<close>

function string_for :: "string \<Rightarrow> nat \<Rightarrow> cursor \<Rightarrow> nat \<times> cursor" where
  "string_for txt length' json =
     (case fst (jsonw_character txt (CHR 0x00) json) of
        None \<Rightarrow> (length', json)
      | Some j \<Rightarrow> string_for txt (Suc length') (Some j))"
  by pat_completeness auto
termination
proof (relation "measure (\<lambda>(txt, n, json). case json of None \<Rightarrow> 0 | Some j \<Rightarrow> Suc (length txt) - j)")
  show "wf (measure (\<lambda>(txt, n, json). case json of None \<Rightarrow> 0 | Some j \<Rightarrow> Suc (length txt) - j))"
    by simp
next
  fix t :: string and n :: nat and json :: cursor and j :: nat
  assume a: "fst (jsonw_character t (CHR 0x00) json) = Some j"
  then obtain j0 where j0: "json = Some j0"
    by (cases json) (simp_all add: jsonw_character_None)
  obtain c where "jsonw_character t (CHR 0x00) (Some j0) = (Some j, c)"
    using a j0 by (cases "jsonw_character t (CHR 0x00) (Some j0)") auto
  from jsonw_character_advance [OF this] j0
  show "((t, Suc n, Some j), (t, n, json))
         \<in> measure (\<lambda>(txt, n, json). case json of None \<Rightarrow> 0 | Some j \<Rightarrow> Suc (length txt) - j)"
    by auto
qed

declare string_for.simps [simp del]

definition jsonw_string :: "string \<Rightarrow> nat \<Rightarrow> cursor \<Rightarrow> cursor \<times> nat" where
  "jsonw_string txt len json =
     (let (length', json') = string_for txt 0 (jsonw_beginstr txt json)
      in case jsonw_endstr txt json' of
           Some j \<Rightarrow> (Some j, length')
         | None \<Rightarrow> (None, len))"

definition jsonw_name :: "string \<Rightarrow> cursor \<Rightarrow> cursor" where
  "jsonw_name txt json = jsonw_namesep txt (fst (jsonw_string txt 0 json))"

section \<open>Values\<close>

subsection \<open>The kind of a value\<close>

text \<open>
  Modelled from the spec: the header \<^verbatim>\<open>jsonw.h\<close>, which declares the enumeration
  \<^verbatim>\<open>jsonw_ty\<close>, is not among the sources. The spec gives its six tags and their order,
  \<^verbatim>\<open>null | boolean | number | string | array | object\<close>; \<open>jsonw_ty_int\<close> numbers them
  from zero in that order, as a C enumeration without initialisers does. The code
  relies on that much: \<^verbatim>\<open>jsonw_primitive\<close> writes \<^verbatim>\<open>(*type = JSONW_NULL, 1)\<close> for the one
  tag whose assignment is zero, and uses the assignments of the other tags as truth
  values.
\<close>

datatype jsonw_ty =
  JSONW_NULL | JSONW_BOOLEAN | JSONW_NUMBER | JSONW_STRING | JSONW_ARRAY | JSONW_OBJECT

definition jsonw_ty_int :: "jsonw_ty \<Rightarrow> int" where
  "jsonw_ty_int t =
     (case t of
        JSONW_NULL \<Rightarrow> 0 | JSONW_BOOLEAN \<Rightarrow> 1 | JSONW_NUMBER \<Rightarrow> 2
      | JSONW_STRING \<Rightarrow> 3 | JSONW_ARRAY \<Rightarrow> 4 | JSONW_OBJECT \<Rightarrow> 5)"

subsection \<open>Primitive values\<close>

text \<open>
  \<^verbatim>\<open>jsonw_primitive\<close> chains its alternatives with \<^verbatim>\<open>||\<close>; an alternative is
  \<^verbatim>\<open>(j = parser(NULL, json)) && (*type = TAG)\<close>. It assigns \<^verbatim>\<open>j\<close>; when \<^verbatim>\<open>j\<close> is not
  \<^verbatim>\<open>NULL\<close> it writes the tag, and the chain ends there if the tag is not zero.
\<close>

definition jsonw_primitive :: "string \<Rightarrow> jsonw_ty \<Rightarrow> cursor \<Rightarrow> cursor \<times> jsonw_ty" where
  "jsonw_primitive txt type json =
     (case jsonw_null txt json of
        Some j \<Rightarrow> (Some j, JSONW_NULL)
      | None \<Rightarrow>
          (let j1 = fst (jsonw_boolean txt False json);
               type1 = (if j1 \<noteq> None then JSONW_BOOLEAN else type)
           in if j1 \<noteq> None \<and> jsonw_ty_int JSONW_BOOLEAN \<noteq> 0 then (j1, type1)
              else
                let j2 = fst (jsonw_number txt (Fin 0) json);
                    type2 = (if j2 \<noteq> None then JSONW_NUMBER else type1)
                in if j2 \<noteq> None \<and> jsonw_ty_int JSONW_NUMBER \<noteq> 0 then (j2, type2)
                   else
                     let j3 = fst (jsonw_string txt 0 json);
                         type3 = (if j3 \<noteq> None then JSONW_STRING else type2)
                     in (j3, type3)))"

subsection \<open>A measure for the recursive descent\<close>

text \<open>
  \<^verbatim>\<open>jsonw_value\<close>, \<^verbatim>\<open>jsonw_structured\<close>, \<^verbatim>\<open>jsonw_array\<close> and \<^verbatim>\<open>jsonw_object\<close> call each other,
  and the loops of the last two go on from the cursor \<^verbatim>\<open>jsonw_value\<close> returns. They
  terminate because no parser moves a cursor backwards and every bracket and comma
  moves it forwards. \<open>cursor_room\<close> is the room left behind a cursor, none for
  \<^verbatim>\<open>NULL\<close>; \<open>parse_rank\<close> orders the calls, first by the room and then by the function.
\<close>

definition cursor_room :: "string \<Rightarrow> cursor \<Rightarrow> nat" where
  "cursor_room txt json = (case json of None \<Rightarrow> 0 | Some j \<Rightarrow> Suc (Suc (length txt) - j))"

fun parse_rank ::
  "((string \<times> jsonw_ty \<times> cursor) + (string \<times> jsonw_ty \<times> cursor) + (string \<times> nat \<times> cursor))
   + (string \<times> nat \<times> cursor) + (string \<times> nat \<times> cursor) + (string \<times> nat \<times> cursor) \<Rightarrow> nat"
where
  "parse_rank (Inl (Inl (txt, _, json))) = 4 * cursor_room txt json + 2"
| "parse_rank (Inl (Inr (Inl (txt, _, json)))) = (if json = None then 5 else 4 * cursor_room txt json + 1)"
| "parse_rank (Inl (Inr (Inr (txt, _, json)))) = (if json = None then 4 else 4 * cursor_room txt json)"
| "parse_rank (Inr (Inl (txt, _, json))) = 4 * cursor_room txt json + 3"
| "parse_rank (Inr (Inr (Inl (txt, _, json)))) = (if json = None then 4 else 4 * cursor_room txt json)"
| "parse_rank (Inr (Inr (Inr (txt, _, json)))) = 4 * cursor_room txt json + 3"

text \<open>No parser defined so far gives a cursor more room than it had.\<close>

lemma ws_while_ge: "j \<le> ws_while t j"
proof (induction t j rule: ws_while.induct)
  case (1 t j)
  show ?case
  proof (cases "peek t j \<noteq> CHR 0x00 \<and> strchr ws_chars (peek t j)")
    case True
    then have "ws_while t j = ws_while t (Suc j)"
      by (subst ws_while.simps) simp
    with 1 True show ?thesis by simp
  next
    case False
    then have "ws_while t j = j"
      by (subst ws_while.simps) auto
    then show ?thesis by simp
  qed
qed

lemma room_None [simp]: "cursor_room t None = 0"
  by (simp add: cursor_room_def)

lemma room_mono: "j \<le> j' \<Longrightarrow> cursor_room t (Some j') \<le> cursor_room t (Some j)"
  by (simp add: cursor_room_def)

lemma room_less: "j < j' \<Longrightarrow> j \<le> length t \<Longrightarrow> cursor_room t (Some j') < cursor_room t (Some j)"
  by (simp add: cursor_room_def)

lemma room_pos: "0 < cursor_room t (Some j)"
  by (simp add: cursor_room_def)

lemma room_ws: "cursor_room t (jsonw_ws t json) \<le> cursor_room t json"
  by (cases json) (simp_all add: jsonw_ws_def room_mono ws_while_ge)

lemma peek_nonzero: "peek t j \<noteq> CHR 0x00 \<Longrightarrow> j < length t"
  by (simp add: peek_def split: if_splits)

lemma room_litchr:
  assumes "c \<noteq> CHR 0x00" "json \<noteq> None"
  shows "cursor_room t (jsonw_litchr t c json) < cursor_room t json"
proof -
  from assms(2) obtain j where j: "json = Some j" by auto
  show ?thesis
  proof (cases "peek t j = c")
    case True
    with assms(1) have "j < length t" by (auto intro: peek_nonzero)
    then have "cursor_room t (Some (Suc j)) < cursor_room t (Some j)"
      by (intro room_less) simp_all
    with True j show ?thesis by (simp add: jsonw_litchr_def)
  next
    case False
    with j show ?thesis by (simp add: jsonw_litchr_def room_pos)
  qed
qed

lemma jsonw_ws_None: "jsonw_ws t json = None \<longleftrightarrow> json = None"
  by (simp add: jsonw_ws_def split: option.splits)

lemma room_WSCHRWS:
  assumes "c \<noteq> CHR 0x00" "json \<noteq> None"
  shows "cursor_room t (WSCHRWS t c json) < cursor_room t json"
proof -
  have "jsonw_ws t json \<noteq> None" using assms(2) by (simp add: jsonw_ws_None)
  with assms(1)
  have "cursor_room t (jsonw_litchr t c (jsonw_ws t json)) < cursor_room t (jsonw_ws t json)"
    by (rule room_litchr)
  then show ?thesis
    unfolding WSCHRWS_def
    using room_ws [of t json] room_ws [of t "jsonw_litchr t c (jsonw_ws t json)"] by linarith
qed

lemma WSCHRWS_None: "WSCHRWS t c None = None"
  by (simp add: WSCHRWS_def jsonw_ws_def jsonw_litchr_def)

lemma room_WSCHRWS_le: "c \<noteq> CHR 0x00 \<Longrightarrow> cursor_room t (WSCHRWS t c json) \<le> cursor_room t json"
  using room_WSCHRWS [of c json t] by (cases json) (auto simp: WSCHRWS_None)

lemma room_litstr: "cursor_room t (jsonw_litstr t s json) \<le> cursor_room t json"
  by (cases json) (simp_all add: jsonw_litstr_def room_mono)

lemma room_boolean: "cursor_room t (fst (jsonw_boolean t b json)) \<le> cursor_room t json"
  using room_litstr [of t "''true''" json] room_litstr [of t "''false''" json]
  by (auto simp: jsonw_boolean_def split: option.splits)

lemma digits_double_ge: "j \<le> snd (digits_double t v j)"
proof (induction t v j rule: digits_double.induct)
  case (1 t v j)
  show ?case
  proof (cases "isdigit (peek t j)")
    case True
    with 1 show ?thesis by (subst digits_double.simps) auto
  next
    case False
    then show ?thesis by (subst digits_double.simps) auto
  qed
qed

lemma digits_ushort_ge: "j \<le> snd (digits_ushort t v j)"
proof (induction t v j rule: digits_ushort.induct)
  case (1 t v j)
  show ?case
  proof (cases "isdigit (peek t j)")
    case True
    with 1 show ?thesis by (subst digits_ushort.simps) auto
  next
    case False
    then show ?thesis by (subst digits_ushort.simps) auto
  qed
qed

lemma number_int_ge: "number_int t j = Some (s, j') \<Longrightarrow> j \<le> j'"
  using digits_double_ge [of j t "Fin 0"]
  by (auto simp: number_int_def DIGIT_PLUS_double_def split: if_splits)

lemma number_frac_ge: "number_frac t s j = Some (s', sh, j') \<Longrightarrow> j \<le> j'"
  using digits_double_ge [of "Suc j" t s]
  by (auto simp: number_frac_def DIGIT_PLUS_double_def split: if_splits prod.splits)

lemma number_exp_ge: "number_exp t j = Some (e, j') \<Longrightarrow> j \<le> j'"
  using digits_ushort_ge [of "Suc j" t 0] digits_ushort_ge [of "Suc (Suc j)" t 0]
  by (auto simp: number_exp_def DIGIT_PLUS_ushort_def split: if_splits prod.splits)

lemma number_ge:
  assumes "fst (jsonw_number t num (Some j)) = Some j'"
  shows "j \<le> j'"
proof -
  obtain sg j1 where s: "number_sign t j = (sg, j1)" by (cases "number_sign t j")
  then have j1: "j \<le> j1" by (auto simp: number_sign_def split: if_splits)
  from assms s obtain s1 j2 where i: "number_int t j1 = Some (s1, j2)"
    by (auto simp: jsonw_number_def split: option.splits)
  from assms s i obtain s2 sh j3 where f: "number_frac t s1 j2 = Some (s2, sh, j3)"
    by (auto simp: jsonw_number_def split: option.splits)
  from assms s i f obtain e j4 where x: "number_exp t j3 = Some (e, j4)"
    by (auto simp: jsonw_number_def split: option.splits)
  from assms s i f x have "j' = j4"
    by (auto simp: jsonw_number_def split: option.splits prod.splits)
  with j1 number_int_ge [OF i] number_frac_ge [OF f] number_exp_ge [OF x]
  show ?thesis by linarith
qed

lemma jsonw_number_None: "fst (jsonw_number t num None) = None"
  by (simp add: jsonw_number_def)

lemma room_number: "cursor_room t (fst (jsonw_number t num json)) \<le> cursor_room t json"
proof (cases json)
  case None
  then show ?thesis by (simp add: jsonw_number_None cursor_room_def)
next
  case (Some j)
  show ?thesis
  proof (cases "fst (jsonw_number t num (Some j))")
    case None
    then show ?thesis using Some by (simp add: cursor_room_def)
  next
    case (Some j')
    from number_ge [OF this] show ?thesis using \<open>json = Some j\<close> Some
      by (simp add: cursor_room_def)
  qed
qed

lemma room_character: "cursor_room t (fst (jsonw_character t c json)) \<le> cursor_room t json"
proof (cases json)
  case None
  then show ?thesis by (simp add: jsonw_character_None)
next
  case (Some j)
  show ?thesis
  proof (cases "jsonw_character t c (Some j)")
    case (Pair r c')
    show ?thesis
    proof (cases r)
      case None
      with Pair Some show ?thesis by simp
    next
      case (Some j')
      have "j < j' \<and> j < length t" using Pair Some jsonw_character_advance [of t c j j' c'] by simp
      then have "cursor_room t (Some j') \<le> cursor_room t (Some j)" by (simp add: room_mono)
      with Pair Some \<open>json = Some j\<close>
      show ?thesis by simp
    qed
  qed
qed

lemma room_string_for: "cursor_room t (snd (string_for t n json)) \<le> cursor_room t json"
proof (induction t n json rule: string_for.induct)
  case (1 t n json)
  show ?case
  proof (cases "fst (jsonw_character t (CHR 0x00) json)")
    case None
    then show ?thesis by (subst string_for.simps) simp
  next
    case (Some j)
    have "cursor_room t (snd (string_for t (Suc n) (Some j))) \<le> cursor_room t (Some j)"
      using 1 Some by simp
    moreover have "cursor_room t (Some j) \<le> cursor_room t json"
      using room_character [of t "CHR 0x00" json] Some by simp
    ultimately show ?thesis
      using Some by (subst string_for.simps) simp
  qed
qed

lemma room_string: "cursor_room t (fst (jsonw_string t len json)) \<le> cursor_room t json"
proof -
  obtain n j2 where sf: "string_for t 0 (jsonw_beginstr t json) = (n, j2)"
    by (cases "string_for t 0 (jsonw_beginstr t json)")
  have a: "cursor_room t j2 \<le> cursor_room t (jsonw_beginstr t json)"
    using room_string_for [of t 0 "jsonw_beginstr t json"] sf by simp
  have b: "cursor_room t (jsonw_beginstr t json) \<le> cursor_room t json"
    by (cases json) (auto simp: jsonw_beginstr_def jsonw_litchr_def room_mono)
  have c: "cursor_room t (jsonw_endstr t j2) \<le> cursor_room t j2"
    by (cases j2) (auto simp: jsonw_endstr_def jsonw_litchr_def room_mono)
  have "fst (jsonw_string t len json) = jsonw_endstr t j2"
    using sf by (simp add: jsonw_string_def split: option.splits)
  with a b c show ?thesis by simp
qed

lemma room_name: "cursor_room t (jsonw_name t json) \<le> cursor_room t json"
  unfolding jsonw_name_def jsonw_namesep_def
  using room_WSCHRWS_le [of "CHR '':''" t "fst (jsonw_string t 0 json)"] room_string [of t 0 json]
  by simp

lemma room_primitive: "cursor_room t (fst (jsonw_primitive t ty json)) \<le> cursor_room t json"
  using room_litstr [of t "''null''" json] room_boolean [of t False json]
    room_number [of t "Fin 0" json] room_string [of t 0 json]
  by (auto simp: jsonw_primitive_def jsonw_null_def Let_def split: option.splits)

subsection \<open>Structured values\<close>

text \<open>
  \<open>array_for\<close> and \<open>object_for\<close> are the \<^verbatim>\<open>for\<close> loops of \<^verbatim>\<open>jsonw_array\<close> and
  \<^verbatim>\<open>jsonw_object\<close>, entered with \<^verbatim>\<open>length = 0\<close>. They yield the counter and the cursor of
  the \<^verbatim>\<open>return\<close> inside the loop, and \<open>None\<close> when the loop ends and the function
  returns \<^verbatim>\<open>NULL\<close>. \<^verbatim>\<open>jsonw_array\<close> stores the counter through \<^verbatim>\<open>len\<close>; \<^verbatim>\<open>jsonw_object\<close>
  returns without a store.
\<close>

function (domintros) jsonw_value :: "string \<Rightarrow> jsonw_ty \<Rightarrow> cursor \<Rightarrow> cursor \<times> jsonw_ty"
  and jsonw_structured :: "string \<Rightarrow> jsonw_ty \<Rightarrow> cursor \<Rightarrow> cursor \<times> jsonw_ty"
  and jsonw_array :: "string \<Rightarrow> nat \<Rightarrow> cursor \<Rightarrow> cursor \<times> nat"
  and array_for :: "string \<Rightarrow> nat \<Rightarrow> cursor \<Rightarrow> (nat \<times> nat) option"
  and jsonw_object :: "string \<Rightarrow> nat \<Rightarrow> cursor \<Rightarrow> cursor \<times> nat"
  and object_for :: "string \<Rightarrow> nat \<Rightarrow> cursor \<Rightarrow> (nat \<times> nat) option"
where
  "jsonw_value txt type json =
     (case json of
        None \<Rightarrow> (None, type)
      | Some _ \<Rightarrow>
          (case jsonw_primitive txt type json of
             (Some j, type') \<Rightarrow> (Some j, type')
           | (None, type') \<Rightarrow> jsonw_structured txt type' json))"
| "jsonw_structured txt type json =
     (let j1 = fst (jsonw_array txt 0 json);
          type1 = (if j1 \<noteq> None then JSONW_ARRAY else type)
      in if j1 \<noteq> None \<and> jsonw_ty_int JSONW_ARRAY \<noteq> 0 then (j1, type1)
         else
           let j2 = fst (jsonw_object txt 0 json);
               type2 = (if j2 \<noteq> None then JSONW_OBJECT else type1)
           in (j2, type2))"
| "jsonw_array txt len json =
     (let json' = jsonw_beginarr txt json
      in case jsonw_endarr txt json' of
           Some j \<Rightarrow> (Some j, len)
         | None \<Rightarrow>
             (case array_for txt 0 json' of
                Some (length', j) \<Rightarrow> (Some j, length')
              | None \<Rightarrow> (None, len)))"
| "array_for txt length' json =
     (case fst (jsonw_value txt JSONW_NULL json) of
        None \<Rightarrow> None
      | Some json' \<Rightarrow>
          (case jsonw_endarr txt (Some json') of
             Some j \<Rightarrow> Some (length', j)
           | None \<Rightarrow> array_for txt (Suc length') (jsonw_valuesep txt (Some json'))))"
| "jsonw_object txt len json =
     (let json' = jsonw_beginobj txt json
      in case jsonw_endobj txt json' of
           Some j \<Rightarrow> (Some j, len)
         | None \<Rightarrow>
             (case object_for txt 0 json' of
                Some (length', j) \<Rightarrow> (Some j, len)
              | None \<Rightarrow> (None, len)))"
| "object_for txt length' json =
     (case fst (jsonw_value txt JSONW_NULL (jsonw_name txt json)) of
        None \<Rightarrow> None
      | Some json' \<Rightarrow>
          (case jsonw_endobj txt (Some json') of
             Some j \<Rightarrow> Some (length', j)
           | None \<Rightarrow> object_for txt (Suc length') (jsonw_valuesep txt (Some json'))))"
  by pat_completeness auto

text \<open>
  Where the functions are defined, they give a cursor no more room than it had; with
  that their recursion is well-founded, and they are defined everywhere.
\<close>

lemma room_parse_dom:
  "jsonw_value_jsonw_structured_jsonw_array_array_for_jsonw_object_object_for_dom (Inl (Inl (t, ty, json)))
     \<Longrightarrow> cursor_room t (fst (jsonw_value t ty json)) \<le> cursor_room t json"
  "jsonw_value_jsonw_structured_jsonw_array_array_for_jsonw_object_object_for_dom (Inl (Inr (Inl (t, ty, json))))
     \<Longrightarrow> cursor_room t (fst (jsonw_structured t ty json)) \<le> cursor_room t json"
  "jsonw_value_jsonw_structured_jsonw_array_array_for_jsonw_object_object_for_dom (Inl (Inr (Inr (t, len, json))))
     \<Longrightarrow> cursor_room t (fst (jsonw_array t len json)) \<le> cursor_room t json"
  "jsonw_value_jsonw_structured_jsonw_array_array_for_jsonw_object_object_for_dom (Inr (Inl (t, n, json)))
     \<Longrightarrow> cursor_room t (map_option snd (array_for t n json)) \<le> cursor_room t json"
  "jsonw_value_jsonw_structured_jsonw_array_array_for_jsonw_object_object_for_dom (Inr (Inr (Inl (t, len, json))))
     \<Longrightarrow> cursor_room t (fst (jsonw_object t len json)) \<le> cursor_room t json"
  "jsonw_value_jsonw_structured_jsonw_array_array_for_jsonw_object_object_for_dom (Inr (Inr (Inr (t, n, json))))
     \<Longrightarrow> cursor_room t (map_option snd (object_for t n json)) \<le> cursor_room t json"
proof (induct rule: jsonw_value_jsonw_structured_jsonw_array_array_for_jsonw_object_object_for.pinduct)
  case (1 t ty json)
  show ?case
  proof (cases json)
    case None
    then show ?thesis using 1(1) by (simp add: jsonw_value.psimps cursor_room_def)
  next
    case (Some j0)
    obtain r ty' where p: "jsonw_primitive t ty json = (r, ty')"
      by (cases "jsonw_primitive t ty json")
    show ?thesis
    proof (cases r)
      case None
      with 1(2) [OF Some p [symmetric]] p Some 1(1) show ?thesis
        by (simp add: jsonw_value.psimps)
    next
      case (Some j)
      with p room_primitive [of t ty json] \<open>json = Some j0\<close> 1(1) show ?thesis
        by (simp add: jsonw_value.psimps)
    qed
  qed
next
  case (2 t ty json)
  show ?case
  proof (cases "fst (jsonw_array t 0 json) \<noteq> None \<and> jsonw_ty_int JSONW_ARRAY \<noteq> 0")
    case True
    with 2(1,2) show ?thesis by (simp add: jsonw_structured.psimps Let_def)
  next
    case False
    from 2(1) have "fst (jsonw_structured t ty json) = fst (jsonw_object t 0 json)"
      by (simp only: jsonw_structured.psimps Let_def if_not_P [OF False] fst_conv)
    with 2(3) [OF refl refl False] show ?thesis by simp
  qed
next
  case (3 t len json)
  have b: "cursor_room t (jsonw_beginarr t json) \<le> cursor_room t json"
    unfolding jsonw_beginarr_def by (rule room_WSCHRWS_le) simp
  have e: "cursor_room t (jsonw_endarr t (jsonw_beginarr t json)) \<le> cursor_room t (jsonw_beginarr t json)"
    unfolding jsonw_endarr_def by (rule room_WSCHRWS_le) simp
  show ?case
  proof (cases "jsonw_endarr t (jsonw_beginarr t json)")
    case None
    have "fst (jsonw_array t len json) = map_option snd (array_for t 0 (jsonw_beginarr t json))"
      using 3(1) None by (simp add: jsonw_array.psimps Let_def split: option.splits)
    with 3(2) [OF refl None] b show ?thesis by simp
  next
    case (Some j)
    with b e 3(1) show ?thesis by (simp add: jsonw_array.psimps Let_def)
  qed
next
  case (4 t n json)
  show ?case
  proof (cases "fst (jsonw_value t JSONW_NULL json)")
    case None
    with 4(1) show ?thesis by (simp add: array_for.psimps cursor_room_def)
  next
    case (Some j1)
    have v: "cursor_room t (Some j1) \<le> cursor_room t json" using 4(2) Some by simp
    have e: "cursor_room t (jsonw_endarr t (Some j1)) \<le> cursor_room t (Some j1)"
      unfolding jsonw_endarr_def by (rule room_WSCHRWS_le) simp
    have s: "cursor_room t (jsonw_valuesep t (Some j1)) \<le> cursor_room t (Some j1)"
      unfolding jsonw_valuesep_def by (rule room_WSCHRWS_le) simp
    show ?thesis
    proof (cases "jsonw_endarr t (Some j1)")
      case None
      from 4(3) [OF Some None] s v 4(1) Some None show ?thesis
        by (simp add: array_for.psimps)
    next
      case (Some j)
      with e v 4(1) \<open>fst (jsonw_value t JSONW_NULL json) = Some j1\<close> show ?thesis
        by (simp add: array_for.psimps)
    qed
  qed
next
  case (5 t len json)
  have b: "cursor_room t (jsonw_beginobj t json) \<le> cursor_room t json"
    unfolding jsonw_beginobj_def by (rule room_WSCHRWS_le) simp
  have e: "cursor_room t (jsonw_endobj t (jsonw_beginobj t json)) \<le> cursor_room t (jsonw_beginobj t json)"
    unfolding jsonw_endobj_def by (rule room_WSCHRWS_le) simp
  show ?case
  proof (cases "jsonw_endobj t (jsonw_beginobj t json)")
    case None
    have "fst (jsonw_object t len json) = map_option snd (object_for t 0 (jsonw_beginobj t json))"
      using 5(1) None by (simp add: jsonw_object.psimps Let_def split: option.splits)
    with 5(2) [OF refl None] b show ?thesis by simp
  next
    case (Some j)
    with b e 5(1) show ?thesis by (simp add: jsonw_object.psimps Let_def)
  qed
next
  case (6 t n json)
  show ?case
  proof (cases "fst (jsonw_value t JSONW_NULL (jsonw_name t json))")
    case None
    with 6(1) show ?thesis by (simp add: object_for.psimps cursor_room_def)
  next
    case (Some j1)
    have v: "cursor_room t (Some j1) \<le> cursor_room t json"
      using 6(2) Some room_name [of t json] by simp
    have e: "cursor_room t (jsonw_endobj t (Some j1)) \<le> cursor_room t (Some j1)"
      unfolding jsonw_endobj_def by (rule room_WSCHRWS_le) simp
    have s: "cursor_room t (jsonw_valuesep t (Some j1)) \<le> cursor_room t (Some j1)"
      unfolding jsonw_valuesep_def by (rule room_WSCHRWS_le) simp
    show ?thesis
    proof (cases "jsonw_endobj t (Some j1)")
      case None
      from 6(3) [OF Some None] s v 6(1) Some None show ?thesis
        by (simp add: object_for.psimps)
    next
      case (Some j)
      with e v 6(1) \<open>fst (jsonw_value t JSONW_NULL (jsonw_name t json)) = Some j1\<close> show ?thesis
        by (simp add: object_for.psimps)
    qed
  qed
qed

termination jsonw_value
  apply (relation "measure parse_rank")
           apply simp_all
  subgoal for t json
    using room_WSCHRWS [of "CHR ''[''" json t]
    by (auto simp: jsonw_beginarr_def WSCHRWS_None)
  subgoal for t json x2
    using room_parse_dom(1) [of t JSONW_NULL json] room_WSCHRWS [of "CHR '',''" "Some x2" t]
    by (simp add: jsonw_valuesep_def)
  subgoal for t json
    using room_WSCHRWS [of "CHR ''{''" json t]
    by (auto simp: jsonw_beginobj_def WSCHRWS_None)
  subgoal for t json
    using room_name [of t json] by simp
  subgoal for t json x2
    using room_parse_dom(1) [of t JSONW_NULL "jsonw_name t json"] room_name [of t json]
      room_WSCHRWS [of "CHR '',''" "Some x2" t]
    by (simp add: jsonw_valuesep_def)
  done

declare jsonw_value.simps [simp del] jsonw_structured.simps [simp del] jsonw_array.simps [simp del]
  array_for.simps [simp del] jsonw_object.simps [simp del] object_for.simps [simp del]

lemma parse_total:
  "jsonw_value_jsonw_structured_jsonw_array_array_for_jsonw_object_object_for_dom (Inl (Inl (t, ty, json)))"
  "jsonw_value_jsonw_structured_jsonw_array_array_for_jsonw_object_object_for_dom (Inl (Inr (Inl (t, ty, json))))"
  "jsonw_value_jsonw_structured_jsonw_array_array_for_jsonw_object_object_for_dom (Inl (Inr (Inr (t, len, json))))"
  "jsonw_value_jsonw_structured_jsonw_array_array_for_jsonw_object_object_for_dom (Inr (Inl (t, n, json)))"
  "jsonw_value_jsonw_structured_jsonw_array_array_for_jsonw_object_object_for_dom (Inr (Inr (Inl (t, len, json))))"
  "jsonw_value_jsonw_structured_jsonw_array_array_for_jsonw_object_object_for_dom (Inr (Inr (Inr (t, n, json))))"
  by (induct t ty json and t ty json and t len json and t n json and t len json and t n json
      rule: jsonw_value_jsonw_structured_jsonw_array_array_for_jsonw_object_object_for.induct)
     (auto intro: jsonw_value_jsonw_structured_jsonw_array_array_for_jsonw_object_object_for.domintros)

lemma room_value: "cursor_room t (fst (jsonw_value t ty json)) \<le> cursor_room t json"
  by (rule room_parse_dom(1) [OF parse_total(1)])

section \<open>Elements, members and texts\<close>

definition jsonw_element :: "string \<Rightarrow> cursor \<Rightarrow> cursor" where
  "jsonw_element txt json = jsonw_valuesep txt (fst (jsonw_value txt JSONW_NULL json))"

definition jsonw_member :: "string \<Rightarrow> cursor \<Rightarrow> cursor" where
  "jsonw_member txt json = jsonw_element txt (jsonw_name txt json)"

definition jsonw_text :: "string \<Rightarrow> jsonw_ty \<Rightarrow> cursor \<Rightarrow> cursor \<times> jsonw_ty" where
  "jsonw_text txt type json =
     (case jsonw_value txt type (jsonw_ws txt json) of (j, type') \<Rightarrow> (jsonw_ws txt j, type'))"

text \<open>
  The check of \<^verbatim>\<open>test.c\<close>:
  \<^verbatim>\<open>char *end = jsonw_text(NULL, buf); bool valid = end && end - buf == size;\<close>
\<close>

definition valid :: "string \<Rightarrow> bool" where
  "valid buf =
     (case fst (jsonw_text buf JSONW_NULL (Some 0)) of
        None \<Rightarrow> False
      | Some end' \<Rightarrow> end' = length buf)"

section \<open>Utilities\<close>

text \<open>
  \<^verbatim>\<open>*str - c\<close> subtracts two \<^verbatim>\<open>char\<close>s as \<^verbatim>\<open>int\<close>s; \<^verbatim>\<open>char\<close> is taken to be signed.
  The key \<open>str\<close> is the list of its bytes before the terminator, so \<^verbatim>\<open>*str\<close> is zero
  exactly at the empty list.
\<close>

definition char_int :: "char \<Rightarrow> int" where
  "char_int c = (if (of_char c :: nat) < 128 then int (of_char c) else int (of_char c) - 256)"

fun jsonw_strcmp :: "string \<Rightarrow> string \<Rightarrow> cursor \<Rightarrow> int" where
  "jsonw_strcmp txt [] json =
     (case jsonw_character txt (CHR 0x00) json of (json', c) \<Rightarrow> char_int (CHR 0x00) - char_int c)"
| "jsonw_strcmp txt (s # str) json =
     (case jsonw_character txt (CHR 0x00) json of
        (json', c) \<Rightarrow>
          if s \<noteq> CHR 0x00 \<and> s = c then jsonw_strcmp txt str json'
          else char_int s - char_int c)"

text \<open>\<^verbatim>\<open>while (idx--) json = jsonw_element(json);\<close>\<close>

fun jsonw_index :: "nat \<Rightarrow> string \<Rightarrow> cursor \<Rightarrow> cursor" where
  "jsonw_index 0 txt json = json"
| "jsonw_index (Suc idx) txt json = jsonw_index idx txt (jsonw_element txt json)"

text \<open>
  The \<^verbatim>\<open>do\<close> loop of \<^verbatim>\<open>jsonw_find\<close> goes on while \<^verbatim>\<open>jsonw_member\<close> succeeds, and a member
  that is matched moves the cursor forward.
\<close>

lemma room_member:
  assumes "jsonw_member t json = Some j"
  shows "cursor_room t (Some j) < cursor_room t json"
proof -
  let ?v = "fst (jsonw_value t JSONW_NULL (jsonw_name t json))"
  have v: "jsonw_valuesep t ?v = Some j"
    using assms by (simp add: jsonw_member_def jsonw_element_def)
  then have "?v \<noteq> None"
    by (cases ?v) (simp_all add: jsonw_valuesep_def WSCHRWS_None)
  then have "cursor_room t (jsonw_valuesep t ?v) < cursor_room t ?v"
    unfolding jsonw_valuesep_def by (intro room_WSCHRWS) simp_all
  with v room_value [of t JSONW_NULL "jsonw_name t json"] room_name [of t json]
  show ?thesis by simp
qed

function jsonw_find :: "string \<Rightarrow> string \<Rightarrow> cursor \<Rightarrow> cursor" where
  "jsonw_find txt name json =
     (if jsonw_strcmp txt name (jsonw_beginstr txt json) = 0 then json
      else (case jsonw_member txt json of
              None \<Rightarrow> None
            | Some j \<Rightarrow> jsonw_find txt name (Some j)))"
  by pat_completeness auto
termination
  by (relation "measure (\<lambda>(txt, name, json). cursor_room txt json)") (auto simp: room_member)

declare jsonw_find.simps [simp del]

definition jsonw_lookup :: "string \<Rightarrow> string \<Rightarrow> cursor \<Rightarrow> cursor" where
  "jsonw_lookup txt name json = jsonw_name txt (jsonw_find txt name json)"

lemma room_character_less:
  assumes "jsonw_character t c json = (Some j, c')"
  shows "cursor_room t (Some j) < cursor_room t json"
proof (cases json)
  case None
  with assms show ?thesis by (simp add: jsonw_character_None)
next
  case (Some j0)
  with assms jsonw_character_advance [of t c j0 j c'] show ?thesis
    by (simp add: room_less)
qed

text \<open>
  \<^verbatim>\<open>jsonw_unescape\<close> writes through \<^verbatim>\<open>buf\<close>. The memory it writes to is a function from
  addresses to bytes, \<open>buf\<close> is an address, and every write is an update of the
  function, whatever the address. \<^verbatim>\<open>size_t\<close> is taken to be 64 bits wide: \<open>len\<close> is a
  \<open>64 word\<close> and \<^verbatim>\<open>--len\<close> wraps at zero. In the \<^verbatim>\<open>for\<close> loop \<^verbatim>\<open>j\<close> and \<^verbatim>\<open>json\<close> are
  equal whenever the condition is evaluated, so one cursor stands for both. The call
  \<^verbatim>\<open>jsonw_character(buf, j)\<close> has the byte at \<open>buf\<close> as the pointee of its out-parameter.
  The loop returns the memory, the final \<^verbatim>\<open>buf\<close> and the final \<^verbatim>\<open>json\<close>.
\<close>

function unescape_for ::
  "string \<Rightarrow> (nat \<Rightarrow> char) \<Rightarrow> nat \<Rightarrow> 64 word \<Rightarrow> cursor
     \<Rightarrow> (nat \<Rightarrow> char) \<times> nat \<times> cursor"
where
  "unescape_for txt mem buf len json =
     (let len' = len - 1
      in if len' = 0 then (mem, buf, json)
         else (case jsonw_character txt (mem buf) json of
                 (None, c) \<Rightarrow> (mem(buf := c), buf, json)
               | (Some j, c) \<Rightarrow> unescape_for txt (mem(buf := c)) (Suc buf) len' (Some j)))"
  by pat_completeness auto
termination
  by (relation "measure (\<lambda>(txt, mem, buf, len, json). cursor_room txt json)")
     (auto intro: room_character_less [OF sym])

declare unescape_for.simps [simp del]

definition jsonw_unescape ::
  "string \<Rightarrow> (nat \<Rightarrow> char) \<Rightarrow> nat \<Rightarrow> 64 word \<Rightarrow> cursor \<Rightarrow> (nat \<Rightarrow> char) \<times> cursor"
where
  "jsonw_unescape txt mem buf len json =
     (case unescape_for txt mem buf len json of
        (mem', buf', json') \<Rightarrow> (mem'(buf' := CHR 0x00), json'))"

section \<open>Whitespace skipping\<close>

lemma ws_while_stop: "\<not> (peek t j \<noteq> CHR 0x00 \<and> strchr ws_chars (peek t j)) \<Longrightarrow> ws_while t j = j"
  by (subst ws_while.simps) auto

lemma ws_while_step: "peek t j \<noteq> CHR 0x00 \<Longrightarrow> strchr ws_chars (peek t j) \<Longrightarrow> ws_while t j = ws_while t (Suc j)"
  by (subst ws_while.simps) simp

lemma ws_while_idem: "ws_while t (ws_while t j) = ws_while t j"
proof (induction t j rule: ws_while.induct)
  case (1 t j)
  show ?case
  proof (cases "peek t j \<noteq> CHR 0x00 \<and> strchr ws_chars (peek t j)")
    case True
    then show ?thesis using 1 by (simp add: ws_while_step)
  next
    case False
    then show ?thesis by (simp add: ws_while_stop)
  qed
qed

text \<open>
  Claim C9. Skipping whitespace is idempotent and cannot fail: \<open>jsonw_ws\<close> applied twice
  gives the cursor it gives applied once; on a cursor that is not \<^verbatim>\<open>NULL\<close> it never
  returns \<^verbatim>\<open>NULL\<close>; and it returns the cursor unchanged when the byte under it is not
  a space, tab, newline or carriage return.
\<close>

theorem jsonw_ws_idempotent_total:
  "jsonw_ws t (jsonw_ws t c) = jsonw_ws t c
   \<and> (c \<noteq> None \<longrightarrow> jsonw_ws t c \<noteq> None)
   \<and> (c = Some j \<longrightarrow> peek t j \<notin> set ws_chars \<longrightarrow> jsonw_ws t c = c)"
proof (intro conjI impI)
  show "jsonw_ws t (jsonw_ws t c) = jsonw_ws t c"
    by (cases c) (simp_all add: jsonw_ws_def ws_while_idem)
next
  assume "c \<noteq> None"
  then show "jsonw_ws t c \<noteq> None" by (simp add: jsonw_ws_None)
next
  assume c: "c = Some j" and p: "peek t j \<notin> set ws_chars"
  have "ws_while t j = j"
    using p by (intro ws_while_stop) (auto simp: strchr_def)
  with c show "jsonw_ws t c = c" by (simp add: jsonw_ws_def)
qed

theorem jsonw_ws_idempotent_total_witness:
  "jsonw_ws '' x '' (jsonw_ws '' x '' (Some 0)) = Some 1
   \<and> jsonw_ws '' x '' (Some 0) \<noteq> None
   \<and> jsonw_ws '' x '' (Some 1) = Some 1"
proof -
  have a: "jsonw_ws '' x '' (Some 0) = Some 1" by code_simp
  have b: "peek '' x '' 1 \<notin> set ws_chars" by code_simp
  from jsonw_ws_idempotent_total [of "'' x ''" "Some 0"]
    jsonw_ws_idempotent_total [of "'' x ''" "Some 1" 1] a b
  show ?thesis by simp
qed

section \<open>Decoded outputs\<close>

lemma jsonw_boolean_failure: "fst (jsonw_boolean t b json) = None \<Longrightarrow> snd (jsonw_boolean t b json) = b"
  by (simp add: jsonw_boolean_def split: option.splits)

lemma jsonw_number_failure: "fst (jsonw_number t num json) = None \<Longrightarrow> snd (jsonw_number t num json) = num"
  by (simp add: jsonw_number_def split: option.splits prod.splits)

lemma jsonw_character_failure:
  assumes "fst (jsonw_character t chr json) = None"
  shows "snd (jsonw_character t chr json) = chr"
proof (cases json)
  case None
  then show ?thesis by (simp add: jsonw_character_None)
next
  case (Some j)
  with assms show ?thesis
    by (auto simp: jsonw_character_def Let_def split: if_splits option.splits)
qed

lemma jsonw_string_failure: "fst (jsonw_string t len json) = None \<Longrightarrow> snd (jsonw_string t len json) = len"
  by (simp add: jsonw_string_def split: option.splits prod.splits)

lemma jsonw_array_failure: "fst (jsonw_array t len json) = None \<Longrightarrow> snd (jsonw_array t len json) = len"
  by (simp add: jsonw_array.simps Let_def split: option.splits prod.splits)

lemma jsonw_object_unwritten: "snd (jsonw_object t len json) = len"
  by (simp add: jsonw_object.simps Let_def split: option.splits prod.splits)

lemma jsonw_ty_int_nonzero:
  "jsonw_ty_int JSONW_BOOLEAN \<noteq> 0" "jsonw_ty_int JSONW_NUMBER \<noteq> 0"
  "jsonw_ty_int JSONW_STRING \<noteq> 0" "jsonw_ty_int JSONW_ARRAY \<noteq> 0"
  "jsonw_ty_int JSONW_OBJECT \<noteq> 0"
  by (simp_all add: jsonw_ty_int_def)

lemma jsonw_primitive_failure:
  "fst (jsonw_primitive t ty json) = None \<Longrightarrow> snd (jsonw_primitive t ty json) = ty"
  by (simp add: jsonw_primitive_def Let_def jsonw_ty_int_nonzero split: option.splits if_splits)

lemma jsonw_structured_failure:
  "fst (jsonw_structured t ty json) = None \<Longrightarrow> snd (jsonw_structured t ty json) = ty"
  by (simp add: jsonw_structured.simps Let_def jsonw_ty_int_nonzero split: if_splits)

lemma jsonw_value_failure:
  assumes "fst (jsonw_value t ty json) = None"
  shows "snd (jsonw_value t ty json) = ty"
proof (cases json)
  case None
  then show ?thesis by (simp add: jsonw_value.simps)
next
  case (Some j)
  obtain r ty' where p: "jsonw_primitive t ty json = (r, ty')"
    by (cases "jsonw_primitive t ty json")
  show ?thesis
  proof (cases r)
    case None
    with p jsonw_primitive_failure [of t ty json] have ty': "ty' = ty" by simp
    have v: "jsonw_value t ty json = jsonw_structured t ty json"
      using Some p None ty' by (simp add: jsonw_value.simps)
    with assms jsonw_structured_failure [of t ty json] show ?thesis by simp
  next
    case (Some j')
    with p \<open>json = Some j\<close> assms show ?thesis by (simp add: jsonw_value.simps)
  qed
qed

text \<open>
  Claim C3. Whenever \<^verbatim>\<open>jsonw_boolean\<close>, \<^verbatim>\<open>jsonw_number\<close>, \<^verbatim>\<open>jsonw_string\<close>,
  \<^verbatim>\<open>jsonw_array\<close>, \<^verbatim>\<open>jsonw_object\<close> or \<^verbatim>\<open>jsonw_value\<close> returns \<^verbatim>\<open>NULL\<close>, the pointee of
  its out-parameter holds the value it held before the call.
\<close>

theorem failure_leaves_output_untouched:
  "(fst (jsonw_boolean t b json) = None \<longrightarrow> snd (jsonw_boolean t b json) = b)
   \<and> (fst (jsonw_number t num json) = None \<longrightarrow> snd (jsonw_number t num json) = num)
   \<and> (fst (jsonw_string t len json) = None \<longrightarrow> snd (jsonw_string t len json) = len)
   \<and> (fst (jsonw_array t len json) = None \<longrightarrow> snd (jsonw_array t len json) = len)
   \<and> (fst (jsonw_object t len json) = None \<longrightarrow> snd (jsonw_object t len json) = len)
   \<and> (fst (jsonw_value t ty json) = None \<longrightarrow> snd (jsonw_value t ty json) = ty)"
  using jsonw_boolean_failure jsonw_number_failure jsonw_string_failure jsonw_array_failure
    jsonw_object_unwritten jsonw_value_failure
  by blast

theorem failure_leaves_output_untouched_witness:
  "jsonw_boolean ''[1,]'' True (Some 0) = (None, True)
   \<and> jsonw_number ''[1,]'' (Fin 7) (Some 0) = (None, Fin 7)
   \<and> jsonw_string ''[1,]'' 7 (Some 0) = (None, 7)
   \<and> jsonw_array ''[1,]'' 7 (Some 0) = (None, 7)
   \<and> jsonw_object ''[1,]'' 7 (Some 0) = (None, 7)
   \<and> jsonw_value ''[1,]'' JSONW_STRING (Some 0) = (None, JSONW_STRING)"
proof -
  have b: "fst (jsonw_boolean ''[1,]'' True (Some 0)) = None" by code_simp
  have n: "fst (jsonw_number ''[1,]'' (Fin 7) (Some 0)) = None" by code_simp
  have s: "fst (jsonw_string ''[1,]'' 7 (Some 0)) = None" by code_simp
  have a: "fst (jsonw_array ''[1,]'' 7 (Some 0)) = None" by code_simp
  have obj: "fst (jsonw_object ''[1,]'' 7 (Some 0)) = None" by code_simp
  have v: "fst (jsonw_value ''[1,]'' JSONW_STRING (Some 0)) = None" by code_simp
  from failure_leaves_output_untouched
         [where t = "''[1,]''" and json = "Some 0" and b = True and num = "Fin 7" and len = 7
            and ty = JSONW_STRING]
    b n s a obj v
  show ?thesis by (simp add: prod_eq_iff)
qed

section \<open>Element and member counts\<close>

text \<open>
  Claim C1 says that \<^verbatim>\<open>jsonw_array\<close> and \<^verbatim>\<open>jsonw_object\<close> report the number of elements
  or members through \<^verbatim>\<open>len\<close>: 0 for \<^verbatim>\<open>[]\<close> and \<^verbatim>\<open>{}\<close>, 3 for \<^verbatim>\<open>[1,2,3]\<close>, 2 for
  \<^verbatim>\<open>{"a":1,"b":2}\<close>. The code does otherwise. On the empty array and the empty object
  both functions return before writing \<^verbatim>\<open>len\<close>; \<^verbatim>\<open>jsonw_array\<close> stores its counter before
  the increment for the last element, so \<^verbatim>\<open>[1,2,3]\<close> stores 2; \<^verbatim>\<open>jsonw_object\<close> counts its
  members (the loop ends with the counter at 1, one short as well) and never stores the
  count. The theorem evaluates the code on the four inputs, \<open>len\<close> being the value the
  pointee held before.
\<close>

theorem jsonw_array_object_counts:
  \<open>jsonw_array ''[]'' len (Some 0) = (Some 2, len)
   \<and> jsonw_array ''[1,2,3]'' len (Some 0) = (Some 7, 2)
   \<and> jsonw_object ''{}'' len (Some 0) = (Some 2, len)
   \<and> jsonw_object ''{"a":1,"b":2}'' len (Some 0) = (Some 13, len)
   \<and> object_for ''{"a":1,"b":2}'' 0 (jsonw_beginobj ''{"a":1,"b":2}'' (Some 0)) = Some (1, 13)\<close>
proof (intro conjI)
  show \<open>jsonw_array ''[]'' len (Some 0) = (Some 2, len)\<close> by code_simp
  show \<open>jsonw_array ''[1,2,3]'' len (Some 0) = (Some 7, 2)\<close> by code_simp
  show \<open>jsonw_object ''{}'' len (Some 0) = (Some 2, len)\<close> by code_simp
  show \<open>jsonw_object ''{"a":1,"b":2}'' len (Some 0) = (Some 13, len)\<close> by code_simp
  show \<open>object_for ''{"a":1,"b":2}'' 0 (jsonw_beginobj ''{"a":1,"b":2}'' (Some 0)) = Some (1, 13)\<close>
    by code_simp
qed

section \<open>Number literals\<close>

text \<open>
  Claim C4. \<^verbatim>\<open>jsonw_number\<close> on \<^verbatim>\<open>0\<close>, \<^verbatim>\<open>-3\<close>, \<^verbatim>\<open>3.5\<close>, \<^verbatim>\<open>1e2\<close> and \<^verbatim>\<open>-2.5e-1\<close> succeeds, returns
  the cursor at the end of the literal and stores exactly 0, -3, 3.5, 100 and -0.25,
  whatever the pointee held before: no operation on the way rounds.
\<close>

theorem jsonw_number_literals:
  "jsonw_number ''0'' num (Some 0) = (Some (length ''0''), Fin 0)
   \<and> jsonw_number ''-3'' num (Some 0) = (Some (length ''-3''), Fin (- 3))
   \<and> jsonw_number ''3.5'' num (Some 0) = (Some (length ''3.5''), Fin (7 / 2))
   \<and> jsonw_number ''1e2'' num (Some 0) = (Some (length ''1e2''), Fin 100)
   \<and> jsonw_number ''-2.5e-1'' num (Some 0) = (Some (length ''-2.5e-1''), Fin (- (1 / 4)))"
proof (intro conjI)
  show "jsonw_number ''0'' num (Some 0) = (Some (length ''0''), Fin 0)" by code_simp
  show "jsonw_number ''-3'' num (Some 0) = (Some (length ''-3''), Fin (- 3))" by code_simp
  show "jsonw_number ''3.5'' num (Some 0) = (Some (length ''3.5''), Fin (7 / 2))" by code_simp
  show "jsonw_number ''1e2'' num (Some 0) = (Some (length ''1e2''), Fin 100)" by code_simp
  show "jsonw_number ''-2.5e-1'' num (Some 0) = (Some (length ''-2.5e-1''), Fin (- (1 / 4)))"
    by code_simp
qed

section \<open>String escapes\<close>

lemma hex_for_printable:
  "hex_for i t cp j = Some (cp', j') \<Longrightarrow> j \<le> k \<Longrightarrow> k < j' \<Longrightarrow> 32 \<le> (of_char (peek t k) :: nat)"
proof (induction i t cp j rule: hex_for.induct)
  case (1 i t cp j)
  show ?case
  proof (cases "i < 4")
    case False
    with "1.prems" show ?thesis by (subst (asm) hex_for.simps) simp
  next
    case True
    note eq = "1.prems"(1) [unfolded hex_for.simps [of i t cp j]]
    have d: "isdigit (peek t j) \<or> isxdigit (peek t j)"
      using eq True by (auto simp: Let_def split: if_splits)
    then have here: "32 \<le> (of_char (peek t j) :: nat)"
      by (auto simp: isxdigit_def isdigit_def)
    show ?thesis
    proof (cases "k = j")
      case True
      with here show ?thesis by simp
    next
      case False
      with "1.prems"(2) have "Suc j \<le> k" by simp
      with eq True "1.IH" "1.prems"(3) d show ?thesis
        by (auto simp: Let_def split: if_splits)
    qed
  qed
qed

lemma jsonw_character_printable:
  assumes "jsonw_character t chr (Some j) = (Some j', c)" "j \<le> k" "k < j'"
  shows "32 \<le> (of_char (peek t k) :: nat)"
proof (cases "peek t j = CHR 0x5C")
  case False
  with assms(1) have "j' = Suc j" "32 \<le> (of_char (peek t j) :: nat)"
    by (auto simp: jsonw_character_def split: if_splits)
  moreover from this assms(2,3) have "k = j" by simp
  ultimately show ?thesis by simp
next
  case True
  show ?thesis
  proof (cases "k = j")
    case True
    with \<open>peek t j = CHR 0x5C\<close> show ?thesis by simp
  next
    case kj: False
    show ?thesis
    proof (cases "k = Suc j")
      case True
      with assms \<open>peek t j = CHR 0x5C\<close> show ?thesis
        by (auto simp: jsonw_character_def Let_def split: if_splits option.splits)
    next
      case False
      with kj assms(2) have k: "Suc (Suc j) \<le> k" by simp
      with assms(1,3) \<open>peek t j = CHR 0x5C\<close> hex_for_printable [of 0 t 0 "Suc (Suc j)" _ j' k]
      show ?thesis
        by (auto simp: jsonw_character_def Let_def split: if_splits option.splits)
    qed
  qed
qed

lemma string_for_printable:
  "string_for t n json = (n', json') \<Longrightarrow> json = Some j \<Longrightarrow>
     \<exists>j'. json' = Some j' \<and> j \<le> j' \<and> (\<forall>k. j \<le> k \<and> k < j' \<longrightarrow> 32 \<le> (of_char (peek t k) :: nat))"
proof (induction t n json arbitrary: j rule: string_for.induct)
  case (1 t n json)
  note json = \<open>json = Some j\<close>
  show ?case
  proof (cases "jsonw_character t (CHR 0x00) json")
    case (Pair r c)
    show ?thesis
    proof (cases r)
      case None
      with Pair "1.prems" show ?thesis
        by (subst (asm) string_for.simps) auto
    next
      case (Some j1)
      with Pair "1.prems"(1) have rec: "string_for t (Suc n) (Some j1) = (n', json')"
        by (subst (asm) string_for.simps) simp
      have "fst (jsonw_character t (CHR 0x00) json) = Some j1" using Pair Some by simp
      from "1.IH" [OF this rec refl]
      obtain j' where j': "json' = Some j'" "j1 \<le> j'"
        "\<forall>k. j1 \<le> k \<and> k < j' \<longrightarrow> 32 \<le> (of_char (peek t k) :: nat)"
        by auto
      from Pair Some json jsonw_character_advance [of t "CHR 0x00" j j1 c] have "j < j1" by simp
      moreover have "32 \<le> (of_char (peek t k) :: nat)" if "j \<le> k" "k < j'" for k
      proof (cases "k < j1")
        case True
        with Pair Some json that jsonw_character_printable [of t "CHR 0x00" j j1 c k]
        show ?thesis by simp
      next
        case False
        with j'(3) that show ?thesis by simp
      qed
      ultimately show ?thesis using j' by auto
    qed
  qed
qed

lemma jsonw_string_printable:
  assumes "fst (jsonw_string t len (Some j)) = Some e" "j \<le> k" "k < e"
  shows "32 \<le> (of_char (peek t k) :: nat)"
proof -
  obtain n json' where sf: "string_for t 0 (jsonw_beginstr t (Some j)) = (n, json')"
    by (cases "string_for t 0 (jsonw_beginstr t (Some j))")
  with assms(1) have e: "jsonw_endstr t json' = Some e"
    by (simp add: jsonw_string_def split: option.splits)
  then obtain j2 where j2: "json' = Some j2" "peek t j2 = CHR 0x22" "e = Suc j2"
    by (cases json') (auto simp: jsonw_endstr_def jsonw_litchr_def split: if_splits)
  have b: "jsonw_beginstr t (Some j) = Some (Suc j) \<and> peek t j = CHR 0x22"
  proof (rule ccontr)
    assume "\<not> ?thesis"
    then have "jsonw_beginstr t (Some j) = None"
      by (auto simp: jsonw_beginstr_def jsonw_litchr_def split: if_splits)
    with sf j2(1) show False
      by (subst (asm) string_for.simps) (simp add: jsonw_character_None)
  qed
  with sf j2(1) string_for_printable [of t 0 "Some (Suc j)" n json' "Suc j"]
  have mid: "\<forall>k. Suc j \<le> k \<and> k < j2 \<longrightarrow> 32 \<le> (of_char (peek t k) :: nat)" by auto
  consider "k = j" | "Suc j \<le> k \<and> k < j2" | "k = j2"
    using assms(2,3) j2(3) by linarith
  then show ?thesis
  proof cases
    case 1
    with b show ?thesis by simp
  next
    case 2
    with mid show ?thesis by simp
  next
    case 3
    with j2(2) show ?thesis by simp
  qed
qed

text \<open>
  Claim C5. \<^verbatim>\<open>jsonw_character\<close> decodes the escape \<^verbatim>\<open>\n\<close> to the newline byte and
  \<^verbatim>\<open>\u0041\<close> to \<^verbatim>\<open>A\<close>; it decodes \<^verbatim>\<open>\u00e9\<close> to the zero byte; on a byte below
  \<^verbatim>\<open>0x20\<close> it fails, and no \<^verbatim>\<open>jsonw_string\<close> that starts at or before such a byte
  succeeds with an end behind it: a string that holds the byte fails.
\<close>

theorem jsonw_character_escapes:
  "jsonw_character (CHR 0x5C # ''n'') chr (Some 0) = (Some 2, CHR 0x0A)
   \<and> jsonw_character (CHR 0x5C # ''u0041'') chr (Some 0) = (Some 6, CHR ''A'')
   \<and> jsonw_character (CHR 0x5C # ''u00e9'') chr (Some 0) = (Some 6, CHR 0x00)
   \<and> ((of_char (peek t j) :: nat) < 0x20 \<longrightarrow> jsonw_character t chr (Some j) = (None, chr))
   \<and> (j \<le> k \<and> k < e \<and> (of_char (peek t k) :: nat) < 0x20
        \<longrightarrow> fst (jsonw_string t len (Some j)) \<noteq> Some e)"
proof (intro conjI impI)
  show "jsonw_character (CHR 0x5C # ''n'') chr (Some 0) = (Some 2, CHR 0x0A)" by code_simp
  show "jsonw_character (CHR 0x5C # ''u0041'') chr (Some 0) = (Some 6, CHR ''A'')" by code_simp
  show "jsonw_character (CHR 0x5C # ''u00e9'') chr (Some 0) = (Some 6, CHR 0x00)" by code_simp
next
  assume "(of_char (peek t j) :: nat) < 0x20"
  then show "jsonw_character t chr (Some j) = (None, chr)"
    by (auto simp: jsonw_character_def)
next
  assume a: "j \<le> k \<and> k < e \<and> (of_char (peek t k) :: nat) < 0x20"
  show "fst (jsonw_string t len (Some j)) \<noteq> Some e"
  proof
    assume "fst (jsonw_string t len (Some j)) = Some e"
    from jsonw_string_printable [OF this, of k] a show False by simp
  qed
qed

theorem jsonw_character_escapes_witness:
  "jsonw_character [CHR 0x22, CHR ''a'', CHR 0x0A, CHR ''b'', CHR 0x22] (CHR ''x'') (Some 2)
     = (None, CHR ''x'')
   \<and> fst (jsonw_string [CHR 0x22, CHR ''a'', CHR 0x0A, CHR ''b'', CHR 0x22] 7 (Some 0)) \<noteq> Some 5
   \<and> jsonw_string [CHR 0x22, CHR ''a'', CHR 0x0A, CHR ''b'', CHR 0x22] 7 (Some 0) = (None, 7)
   \<and> jsonw_string [CHR 0x22, CHR ''a'', CHR ''c'', CHR ''b'', CHR 0x22] 7 (Some 0) = (Some 5, 3)"
proof -
  let ?t = "[CHR 0x22, CHR ''a'', CHR 0x0A, CHR ''b'', CHR 0x22]"
  have c: "(of_char (peek ?t 2) :: nat) < 0x20" by code_simp
  have s: "jsonw_string ?t 7 (Some 0) = (None, 7)" by code_simp
  have g: "jsonw_string [CHR 0x22, CHR ''a'', CHR ''c'', CHR ''b'', CHR 0x22] 7 (Some 0) = (Some 5, 3)"
    by code_simp
  from jsonw_character_escapes [of "CHR ''x''" ?t 2 2 5 7] c
  have "jsonw_character ?t (CHR ''x'') (Some 2) = (None, CHR ''x'')" by blast
  moreover from jsonw_character_escapes [of "CHR ''x''" ?t 0 2 5 7] c
  have "fst (jsonw_string ?t 7 (Some 0)) \<noteq> Some 5" by simp
  ultimately show ?thesis using s g by simp
qed

section \<open>Comparing and finding keys\<close>

lemma char_int_zero: "char_int (CHR 0x00) = 0"
  by (simp add: char_int_def)

lemma jsonw_strcmp_empty:
  "fst (jsonw_character t (CHR 0x00) json) = None \<Longrightarrow> jsonw_strcmp t [] json = 0"
  using jsonw_character_failure [of t "CHR 0x00" json]
  by (cases "jsonw_character t (CHR 0x00) json") (simp add: char_int_zero)

lemma jsonw_find_stop: "jsonw_strcmp t name (jsonw_beginstr t json) = 0 \<Longrightarrow> jsonw_find t name json = json"
  by (subst jsonw_find.simps) simp

text \<open>
  Claim C10. With the empty key, \<^verbatim>\<open>jsonw_strcmp\<close> reports equality at every cursor where
  \<^verbatim>\<open>jsonw_character\<close> fails, \<^verbatim>\<open>NULL\<close> included. So \<^verbatim>\<open>jsonw_find\<close> with the empty key
  returns its cursor unchanged at once whenever no character can be decoded behind an
  opening quote there; above all when the cursor is not at a quote, as at the closing
  brace of an empty object.
\<close>

theorem jsonw_find_empty_key:
  "(fst (jsonw_character t (CHR 0x00) json) = None \<longrightarrow> jsonw_strcmp t [] json = 0)
   \<and> jsonw_strcmp t [] None = 0
   \<and> (fst (jsonw_character t (CHR 0x00) (jsonw_beginstr t json)) = None
        \<longrightarrow> jsonw_find t [] json = json)
   \<and> (peek t j \<noteq> CHR 0x22 \<longrightarrow> jsonw_find t [] (Some j) = Some j)
   \<and> jsonw_find t [] None = None"
proof (intro conjI impI)
  show "jsonw_strcmp t [] json = 0" if "fst (jsonw_character t (CHR 0x00) json) = None"
    using that by (rule jsonw_strcmp_empty)
  show none: "jsonw_strcmp t [] None = 0"
    by (rule jsonw_strcmp_empty) (simp add: jsonw_character_None)
  show "jsonw_find t [] json = json"
    if "fst (jsonw_character t (CHR 0x00) (jsonw_beginstr t json)) = None"
    using that by (intro jsonw_find_stop jsonw_strcmp_empty)
  show "jsonw_find t [] (Some j) = Some j" if "peek t j \<noteq> CHR 0x22"
  proof -
    from that have "jsonw_beginstr t (Some j) = None"
      by (simp add: jsonw_beginstr_def jsonw_litchr_def)
    with none show ?thesis by (intro jsonw_find_stop) simp
  qed
  show "jsonw_find t [] None = None"
    using none by (intro jsonw_find_stop) (simp add: jsonw_beginstr_def jsonw_litchr_def)
qed

theorem jsonw_find_empty_key_witness:
  "jsonw_beginobj ''{}'' (Some 0) = Some 1
   \<and> jsonw_beginstr ''{}'' (Some 1) = None
   \<and> jsonw_strcmp ''{}'' [] (jsonw_beginstr ''{}'' (Some 1)) = 0
   \<and> jsonw_find ''{}'' [] (Some 1) = Some 1"
proof -
  have b: "jsonw_beginobj ''{}'' (Some 0) = Some 1" by code_simp
  have s: "jsonw_beginstr ''{}'' (Some 1) = None" by code_simp
  have c: "fst (jsonw_character ''{}'' (CHR 0x00) (jsonw_beginstr ''{}'' (Some 1))) = None"
    by code_simp
  have p: "peek ''{}'' 1 \<noteq> CHR 0x22" by code_simp
  from jsonw_find_empty_key [of "''{}''" "jsonw_beginstr ''{}'' (Some 1)" 1]
    jsonw_find_empty_key [of "''{}''" "Some 1" 1] b s c p
  show ?thesis by simp
qed

section \<open>Elements\<close>

lemma jsonw_primitive_fst: "fst (jsonw_primitive t ty json) = fst (jsonw_primitive t ty' json)"
  by (simp add: jsonw_primitive_def Let_def split: option.splits)

lemma jsonw_structured_fst: "fst (jsonw_structured t ty json) = fst (jsonw_structured t ty' json)"
  by (simp add: jsonw_structured.simps Let_def)

lemma jsonw_value_fst: "fst (jsonw_value t ty json) = fst (jsonw_value t ty' json)"
proof (cases json)
  case None
  then show ?thesis by (simp add: jsonw_value.simps)
next
  case (Some j)
  obtain r ty1 where p: "jsonw_primitive t ty json = (r, ty1)"
    by (cases "jsonw_primitive t ty json")
  obtain r' ty1' where p': "jsonw_primitive t ty' json = (r', ty1')"
    by (cases "jsonw_primitive t ty' json")
  from p p' jsonw_primitive_fst [of t ty json ty'] have r: "r' = r" by simp
  show ?thesis
  proof (cases r)
    case None
    with Some p p' r jsonw_structured_fst [of t ty1 json ty1'] show ?thesis
      by (simp add: jsonw_value.simps)
  next
    case (Some j')
    with \<open>json = Some j\<close> p p' r show ?thesis by (simp add: jsonw_value.simps)
  qed
qed

text \<open>
  Claim C7 says that \<^verbatim>\<open>jsonw_element\<close> succeeds wherever a value parses, with or without
  a comma behind the value. In the code the comma is required:
  \<^verbatim>\<open>jsonw_element\<close> is \<^verbatim>\<open>jsonw_valuesep\<close> applied to the result of \<^verbatim>\<open>jsonw_value\<close>.
  As amended: where a value parses and ends at \<open>j\<close>, \<^verbatim>\<open>jsonw_element\<close> skips the whitespace
  behind it; if a comma follows, it succeeds and returns the cursor behind the comma and
  the whitespace after it; if none follows, it fails.
\<close>

theorem jsonw_element_requires_separator:
  assumes "fst (jsonw_value t ty json) = Some j"
  shows "jsonw_element t json =
           (if peek t (ws_while t j) = CHR '','' then Some (ws_while t (Suc (ws_while t j)))
            else None)"
proof -
  from assms jsonw_value_fst [of t JSONW_NULL json ty]
  have "fst (jsonw_value t JSONW_NULL json) = Some j" by simp
  then show ?thesis
    by (simp add: jsonw_element_def jsonw_valuesep_def WSCHRWS_def jsonw_ws_def jsonw_litchr_def)
qed

theorem jsonw_element_requires_separator_witness:
  "fst (jsonw_value ''[1 , 2]'' JSONW_NULL (Some 1)) = Some 2
   \<and> jsonw_element ''[1 , 2]'' (Some 1) = Some 5
   \<and> fst (jsonw_value ''[1 , 2]'' JSONW_NULL (Some 5)) = Some 6
   \<and> jsonw_element ''[1 , 2]'' (Some 5) = None"
proof -
  have v1: "fst (jsonw_value ''[1 , 2]'' JSONW_NULL (Some 1)) = Some 2" by code_simp
  have v2: "fst (jsonw_value ''[1 , 2]'' JSONW_NULL (Some 5)) = Some 6" by code_simp
  have w1: "ws_while ''[1 , 2]'' 2 = 3" by code_simp
  have w2: "ws_while ''[1 , 2]'' 4 = 5" by code_simp
  have w3: "ws_while ''[1 , 2]'' 6 = 6" by code_simp
  have p1: "peek ''[1 , 2]'' 3 = CHR '',''" by code_simp
  have p2: "peek ''[1 , 2]'' 6 \<noteq> CHR '',''" by code_simp
  from jsonw_element_requires_separator [OF v1] jsonw_element_requires_separator [OF v2]
    v1 v2 w1 w2 w3 p1 p2
  show ?thesis by simp
qed

text \<open>
  Claim C7 as stated fails at the last element of an array: in \<^verbatim>\<open>[1]\<close> a value parses
  at offset 1, and \<^verbatim>\<open>jsonw_element\<close> fails there.
\<close>

theorem jsonw_element_without_separator_fails:
  "fst (jsonw_value ''[1]'' JSONW_NULL (Some 1)) = Some 2 \<and> jsonw_element ''[1]'' (Some 1) = None"
proof
  show "fst (jsonw_value ''[1]'' JSONW_NULL (Some 1)) = Some 2" by code_simp
  show "jsonw_element ''[1]'' (Some 1) = None" by code_simp
qed

section \<open>Navigation\<close>

text \<open>
  Claim C6 as stated chains \<^verbatim>\<open>jsonw_lookup\<close>, \<^verbatim>\<open>jsonw_index\<close> and \<^verbatim>\<open>jsonw_number\<close> on the
  input \<^verbatim>\<open>{"a":1,"b":[2,3]}\<close>. Chained one on the result of the other, the three calls
  fail and store no number, from the start of the input and from the first member
  alike. From the start \<^verbatim>\<open>jsonw_find\<close> finds no key: it compares keys behind an opening
  quote at its cursor and steps over members, and the cursor is at the opening brace.
  From the first member \<^verbatim>\<open>jsonw_lookup\<close> returns the cursor at the opening bracket of the
  array, where \<^verbatim>\<open>jsonw_index\<close> steps over the whole array as one element and finds no
  comma behind it.
\<close>

theorem navigation_chained_directly_fails:
  \<open>jsonw_number ''{"a":1,"b":[2,3]}'' (Fin 0)
      (jsonw_index 1 ''{"a":1,"b":[2,3]}'' (jsonw_lookup ''{"a":1,"b":[2,3]}'' ''b'' (Some 0)))
    = (None, Fin 0)
   \<and> jsonw_number ''{"a":1,"b":[2,3]}'' (Fin 0)
      (jsonw_index 1 ''{"a":1,"b":[2,3]}''
        (jsonw_lookup ''{"a":1,"b":[2,3]}'' ''b'' (jsonw_beginobj ''{"a":1,"b":[2,3]}'' (Some 0))))
    = (None, Fin 0)\<close>
proof
  show \<open>jsonw_number ''{"a":1,"b":[2,3]}'' (Fin 0)
      (jsonw_index 1 ''{"a":1,"b":[2,3]}'' (jsonw_lookup ''{"a":1,"b":[2,3]}'' ''b'' (Some 0)))
    = (None, Fin 0)\<close> by code_simp
  show \<open>jsonw_number ''{"a":1,"b":[2,3]}'' (Fin 0)
      (jsonw_index 1 ''{"a":1,"b":[2,3]}''
        (jsonw_lookup ''{"a":1,"b":[2,3]}'' ''b'' (jsonw_beginobj ''{"a":1,"b":[2,3]}'' (Some 0))))
    = (None, Fin 0)\<close> by code_simp
qed

text \<open>
  The difference \<^verbatim>\<open>*str - c\<close> is zero for equal bytes only.
\<close>

lemma char_int_eq_iff: "char_int c = char_int d \<longleftrightarrow> c = d"
proof
  assume eq: "char_int c = char_int d"
  define x y where "x = (of_char c :: nat)" and "y = (of_char d :: nat)"
  have "x \<in> {0 ..< 256}" "y \<in> {0 ..< 256}"
    unfolding x_def y_def range_nat_of_char [symmetric] by (rule rangeI)+
  then have "x < 256" "y < 256" by simp_all
  moreover from eq
  have "(if x < 128 then int x else int x - 256) = (if y < 128 then int y else int y - 256)"
    by (simp only: char_int_def x_def y_def)
  ultimately have "x = y" by (simp split: if_splits)
  then show "c = d" by (simp add: x_def y_def)
qed simp

lemma char_int_eq_0: "char_int c = 0 \<longleftrightarrow> c = CHR 0x00"
  using char_int_eq_iff [of c "CHR 0x00"] by (simp add: char_int_zero)

text \<open>
  A key of one byte \<open>k\<close> in the text, between its quotes at \<open>j\<close>, compares equal to the
  name \<open>[k]\<close> alone.
\<close>

lemma jsonw_strcmp_single_key:
  assumes k: "jsonw_character t (CHR 0x00) (Some j) = (Some j', k)"
    and e: "fst (jsonw_character t (CHR 0x00) (Some j')) = None"
    and k0: "k \<noteq> CHR 0x00"
    and n: "CHR 0x00 \<notin> set name" "name \<noteq> [k]"
  shows "jsonw_strcmp t name (Some j) \<noteq> 0"
proof (cases name)
  case Nil
  with k k0 show ?thesis by (simp add: char_int_zero char_int_eq_0)
next
  case (Cons s str)
  with n(1) have s0: "s \<noteq> CHR 0x00" by auto
  show ?thesis
  proof (cases "s = k")
    case False
    with Cons k s0 show ?thesis by (simp add: char_int_eq_iff)
  next
    case True
    from e jsonw_character_failure [of t "CHR 0x00" "Some j'"]
    have f: "jsonw_character t (CHR 0x00) (Some j') = (None, CHR 0x00)"
      by (simp add: prod_eq_iff)
    from True Cons n(2) obtain s2 rest where str: "str = s2 # rest" by (cases str) auto
    with Cons n(1) have "s2 \<noteq> CHR 0x00" by auto
    with True Cons k s0 f str show ?thesis
      by (simp add: char_int_zero char_int_eq_0)
  qed
qed

lemma first_document_facts:
  \<open>jsonw_beginobj ''{"a":1,"b":[2,3]}'' (Some 0) = Some 1\<close>
  \<open>jsonw_beginstr ''{"a":1,"b":[2,3]}'' (Some (Suc 0)) = Some 2\<close>
  \<open>jsonw_character ''{"a":1,"b":[2,3]}'' (CHR 0x00) (Some 2) = (Some 3, CHR ''a'')\<close>
  \<open>fst (jsonw_character ''{"a":1,"b":[2,3]}'' (CHR 0x00) (Some 3)) = None\<close>
  \<open>jsonw_member ''{"a":1,"b":[2,3]}'' (Some (Suc 0)) = Some 7\<close>
  \<open>jsonw_beginstr ''{"a":1,"b":[2,3]}'' (Some 7) = Some 8\<close>
  \<open>jsonw_character ''{"a":1,"b":[2,3]}'' (CHR 0x00) (Some 8) = (Some 9, CHR ''b'')\<close>
  \<open>fst (jsonw_character ''{"a":1,"b":[2,3]}'' (CHR 0x00) (Some 9)) = None\<close>
  \<open>jsonw_member ''{"a":1,"b":[2,3]}'' (Some 7) = None\<close>
  by code_simp+

lemma jsonw_find_absent_key:
  assumes "name \<noteq> ''a''" "name \<noteq> ''b''" "CHR 0x00 \<notin> set name"
  shows \<open>jsonw_find ''{"a":1,"b":[2,3]}'' name (jsonw_beginobj ''{"a":1,"b":[2,3]}'' (Some 0)) = None\<close>
proof -
  let ?t = \<open>''{"a":1,"b":[2,3]}''\<close>
  have a: "jsonw_strcmp ?t name (Some 2) \<noteq> 0"
    using first_document_facts(3,4) _ assms(3,1) by (rule jsonw_strcmp_single_key) simp
  have b: "jsonw_strcmp ?t name (Some 8) \<noteq> 0"
    using first_document_facts(7,8) _ assms(3,2) by (rule jsonw_strcmp_single_key) simp
  have "jsonw_find ?t name (Some 7) = None"
    using b by (subst jsonw_find.simps) (simp add: first_document_facts)
  then have "jsonw_find ?t name (Some (Suc 0)) = None"
    using a by (subst jsonw_find.simps) (simp add: first_document_facts)
  then show ?thesis by (simp add: first_document_facts)
qed

text \<open>
  Claim C6 as amended. The navigation functions take a cursor at the first member or
  element. With the cursor moved into the object by \<^verbatim>\<open>jsonw_beginobj\<close>, \<^verbatim>\<open>jsonw_lookup\<close>
  with \<^verbatim>\<open>b\<close>, the move into the array by \<^verbatim>\<open>jsonw_beginarr\<close>, \<^verbatim>\<open>jsonw_index\<close> with 1 and
  \<^verbatim>\<open>jsonw_number\<close> yield 3. From the first member \<^verbatim>\<open>jsonw_find\<close> fails on every key
  absent from the object: on every name other than \<^verbatim>\<open>a\<close> and \<^verbatim>\<open>b\<close> (a name is a C
  string and holds no zero byte). On \<^verbatim>\<open>{"a":1,"a":2}\<close>, \<^verbatim>\<open>jsonw_find\<close> with \<^verbatim>\<open>a\<close> from
  the first member returns that cursor, the first occurrence, and the value
  \<^verbatim>\<open>jsonw_lookup\<close> reaches from there is 1.
\<close>

theorem navigation_inside_containers:
  \<open>jsonw_number ''{"a":1,"b":[2,3]}'' num
      (jsonw_index 1 ''{"a":1,"b":[2,3]}''
        (jsonw_beginarr ''{"a":1,"b":[2,3]}''
          (jsonw_lookup ''{"a":1,"b":[2,3]}'' ''b''
            (jsonw_beginobj ''{"a":1,"b":[2,3]}'' (Some 0)))))
    = (Some 15, Fin 3)
   \<and> (name \<noteq> ''a'' \<and> name \<noteq> ''b'' \<and> CHR 0x00 \<notin> set name
        \<longrightarrow> jsonw_find ''{"a":1,"b":[2,3]}'' name
              (jsonw_beginobj ''{"a":1,"b":[2,3]}'' (Some 0)) = None)
   \<and> jsonw_beginobj ''{"a":1,"a":2}'' (Some 0) = Some 1
   \<and> jsonw_find ''{"a":1,"a":2}'' ''a'' (Some 1) = Some 1
   \<and> jsonw_lookup ''{"a":1,"a":2}'' ''a'' (Some 1) = Some 5
   \<and> jsonw_number ''{"a":1,"a":2}'' num (Some 5) = (Some 6, Fin 1)\<close>
proof (intro conjI impI)
  show \<open>jsonw_number ''{"a":1,"b":[2,3]}'' num
      (jsonw_index 1 ''{"a":1,"b":[2,3]}''
        (jsonw_beginarr ''{"a":1,"b":[2,3]}''
          (jsonw_lookup ''{"a":1,"b":[2,3]}'' ''b''
            (jsonw_beginobj ''{"a":1,"b":[2,3]}'' (Some 0)))))
    = (Some 15, Fin 3)\<close> by code_simp
  show \<open>jsonw_find ''{"a":1,"b":[2,3]}'' name (jsonw_beginobj ''{"a":1,"b":[2,3]}'' (Some 0)) = None\<close>
    if "name \<noteq> ''a'' \<and> name \<noteq> ''b'' \<and> CHR 0x00 \<notin> set name"
    using that by (intro jsonw_find_absent_key) simp_all
  show \<open>jsonw_beginobj ''{"a":1,"a":2}'' (Some 0) = Some 1\<close> by code_simp
  show \<open>jsonw_find ''{"a":1,"a":2}'' ''a'' (Some 1) = Some 1\<close> by code_simp
  show \<open>jsonw_lookup ''{"a":1,"a":2}'' ''a'' (Some 1) = Some 5\<close> by code_simp
  show \<open>jsonw_number ''{"a":1,"a":2}'' num (Some 5) = (Some 6, Fin 1)\<close> by code_simp
qed

theorem navigation_inside_containers_witness:
  \<open>jsonw_find ''{"a":1,"b":[2,3]}'' ''c'' (jsonw_beginobj ''{"a":1,"b":[2,3]}'' (Some 0)) = None
   \<and> jsonw_find ''{"a":1,"b":[2,3]}'' '''' (jsonw_beginobj ''{"a":1,"b":[2,3]}'' (Some 0)) = None
   \<and> jsonw_find ''{"a":1,"b":[2,3]}'' ''ab'' (jsonw_beginobj ''{"a":1,"b":[2,3]}'' (Some 0)) = None
   \<and> jsonw_find ''{"a":1,"b":[2,3]}'' ''b'' (jsonw_beginobj ''{"a":1,"b":[2,3]}'' (Some 0)) = Some 7\<close>
proof -
  have h: "''c'' \<noteq> ''a'' \<and> ''c'' \<noteq> ''b'' \<and> CHR 0x00 \<notin> set ''c''"
    "'''' \<noteq> ''a'' \<and> '''' \<noteq> ''b'' \<and> CHR 0x00 \<notin> set ''''"
    "''ab'' \<noteq> ''a'' \<and> ''ab'' \<noteq> ''b'' \<and> CHR 0x00 \<notin> set ''ab''"
    by simp_all
  have b: \<open>jsonw_find ''{"a":1,"b":[2,3]}'' ''b'' (jsonw_beginobj ''{"a":1,"b":[2,3]}'' (Some 0)) = Some 7\<close>
    by code_simp
  from navigation_inside_containers [where name = "''c''"]
    navigation_inside_containers [where name = "''''"]
    navigation_inside_containers [where name = "''ab''"] h b
  show ?thesis by blast
qed

section \<open>Unescaping into a buffer\<close>

lemma unat_pred: "len \<noteq> 0 \<Longrightarrow> unat (len - 1) = unat len - 1" for len :: "64 word"
  by (simp add: unat_minus_one)

lemma unescape_for_frame:
  "unescape_for t mem buf len json = (mem', buf', json') \<Longrightarrow> len \<noteq> 0 \<Longrightarrow>
     buf \<le> buf' \<and> buf' < buf + unat len \<and> (\<forall>a. a < buf \<or> buf' \<le> a \<longrightarrow> mem' a = mem a)"
proof (induction t mem buf len json rule: unescape_for.induct)
  case (1 t mem buf len json)
  have pos: "0 < unat len" using "1.prems"(2) by (simp add: unat_gt_0)
  show ?case
  proof (cases "len - 1 = 0")
    case True
    with "1.prems"(1) pos show ?thesis
      by (subst (asm) unescape_for.simps) simp
  next
    case False
    obtain r c where ch: "jsonw_character t (mem buf) json = (r, c)"
      by (cases "jsonw_character t (mem buf) json")
    show ?thesis
    proof (cases r)
      case None
      with ch jsonw_character_failure [of t "mem buf" json] have "c = mem buf" by simp
      with ch None False "1.prems"(1) pos show ?thesis
        by (subst (asm) unescape_for.simps) auto
    next
      case (Some j)
      with ch False "1.prems"(1)
      have rec: "unescape_for t (mem(buf := c)) (Suc buf) (len - 1) (Some j) = (mem', buf', json')"
        by (subst (asm) unescape_for.simps) simp
      from "1.IH" [OF refl False ch [symmetric] Some rec False]
      have ih: "Suc buf \<le> buf'" "buf' < Suc buf + unat (len - 1)"
        "\<forall>a. a < Suc buf \<or> buf' \<le> a \<longrightarrow> mem' a = (mem(buf := c)) a"
        by auto
      from ih(2) unat_pred [OF "1.prems"(2)] pos have "buf' < buf + unat len" by simp
      moreover have "mem' a = mem a" if "a < buf \<or> buf' \<le> a" for a
      proof -
        from that ih(1) have "a \<noteq> buf" "a < Suc buf \<or> buf' \<le> a" by auto
        with ih(3) have "mem' a = (mem(buf := c)) a" by blast
        with \<open>a \<noteq> buf\<close> show ?thesis by simp
      qed
      ultimately show ?thesis using ih(1) by auto
    qed
  qed
qed

lemma hello_chars:
  "jsonw_character ''hello'' c (Some 0) = (Some 1, CHR ''h'')"
  "jsonw_character ''hello'' c (Some (Suc 0)) = (Some 2, CHR ''e'')"
  by code_simp+

lemma unescape_for_hello:
  "unescape_for ''hello'' mem buf 3 (Some 0) = (mem(buf := CHR ''h'', Suc buf := CHR ''e''), Suc (Suc buf), Some 2)"
  by (simp add: unescape_for.simps [of _ _ _ 3] unescape_for.simps [of _ _ _ 2]
      unescape_for.simps [of _ _ _ 1] hello_chars)

text \<open>
  Claim C8. For a capacity \<open>len\<close> above zero \<^verbatim>\<open>jsonw_unescape\<close> stores at most
  \<open>len - 1\<close> decoded bytes, from \<open>buf\<close> up to the final \<open>buf'\<close> of its loop, and a zero
  byte at \<open>buf'\<close>; the memory below \<open>buf\<close>, above \<open>buf'\<close> and from \<open>buf + len\<close> on is
  as it was. Unescaping the five characters \<^verbatim>\<open>hello\<close> into three bytes stores \<^verbatim>\<open>h\<close>,
  \<^verbatim>\<open>e\<close> and the terminator, and returns the cursor behind \<^verbatim>\<open>e\<close>.
\<close>

theorem jsonw_unescape_bounded:
  assumes "len \<noteq> 0" and "unescape_for t mem buf len json = (m, buf', j)"
  shows "jsonw_unescape t mem buf len json = (m(buf' := CHR 0x00), j)
     \<and> buf \<le> buf' \<and> buf' - buf \<le> unat len - 1
     \<and> (\<forall>a. a < buf \<or> buf' < a \<longrightarrow> fst (jsonw_unescape t mem buf len json) a = mem a)
     \<and> (\<forall>a. buf + unat len \<le> a \<longrightarrow> fst (jsonw_unescape t mem buf len json) a = mem a)
     \<and> jsonw_unescape ''hello'' mem buf 3 (Some 0)
          = (mem(buf := CHR ''h'', buf + 1 := CHR ''e'', buf + 2 := CHR 0x00), Some 2)"
proof -
  from unescape_for_frame [OF assms(2,1)]
  have f: "buf \<le> buf'" "buf' < buf + unat len" "\<forall>a. a < buf \<or> buf' \<le> a \<longrightarrow> m a = mem a"
    by auto
  have u: "jsonw_unescape t mem buf len json = (m(buf' := CHR 0x00), j)"
    using assms(2) by (simp add: jsonw_unescape_def)
  have "jsonw_unescape ''hello'' mem buf 3 (Some 0)
          = (mem(buf := CHR ''h'', buf + 1 := CHR ''e'', buf + 2 := CHR 0x00), Some 2)"
    by (simp add: jsonw_unescape_def unescape_for_hello)
  with u f show ?thesis by auto
qed

theorem jsonw_unescape_bounded_witness:
  "(case jsonw_unescape ''hello'' (\<lambda>_. CHR ''x'') 10 3 (Some 0) of
      (m, j) \<Rightarrow> (map m [9, 10, 11, 12, 13], j)) = (''xhe'' @ [CHR 0x00] @ ''x'', Some 2)"
proof -
  have h: "(3 :: 64 word) \<noteq> 0" by simp
  from jsonw_unescape_bounded [OF h unescape_for_hello, of "\<lambda>_. CHR ''x''" 10]
  show ?thesis by simp
qed

section \<open>Cursors stay inside the text\<close>

text \<open>
  A cursor is inside the text when it is \<^verbatim>\<open>NULL\<close> or at most at the terminator. Every
  parser maps cursors inside the text to cursors inside the text.
\<close>

definition in_text :: "string \<Rightarrow> cursor \<Rightarrow> bool" where
  "in_text txt json = (case json of None \<Rightarrow> True | Some j \<Rightarrow> j \<le> length txt)"

lemma in_text_None [simp]: "in_text t None"
  by (simp add: in_text_def)

lemma in_text_Some [simp]: "in_text t (Some j) \<longleftrightarrow> j \<le> length t"
  by (simp add: in_text_def)

lemma ws_while_le: "j \<le> length t \<Longrightarrow> ws_while t j \<le> length t"
proof (induction t j rule: ws_while.induct)
  case (1 t j)
  show ?case
  proof (cases "peek t j \<noteq> CHR 0x00 \<and> strchr ws_chars (peek t j)")
    case True
    then have "Suc j \<le> length t" using peek_nonzero [of t j] by simp
    with 1 True show ?thesis by (simp add: ws_while_step)
  next
    case False
    with 1 show ?thesis by (simp add: ws_while_stop)
  qed
qed

lemma in_ws: "in_text t json \<Longrightarrow> in_text t (jsonw_ws t json)"
  by (cases json) (simp_all add: jsonw_ws_def ws_while_le)

lemma peek_nonzero_Suc: "peek t j \<noteq> CHR 0x00 \<Longrightarrow> Suc j \<le> length t"
  using peek_nonzero [of t j] by simp

lemma in_litchr: "c \<noteq> CHR 0x00 \<Longrightarrow> in_text t (jsonw_litchr t c json)"
  by (cases json) (auto simp: jsonw_litchr_def peek_nonzero_Suc)

lemma in_WSCHRWS: "c \<noteq> CHR 0x00 \<Longrightarrow> in_text t (WSCHRWS t c json)"
  unfolding WSCHRWS_def by (intro in_ws in_litchr)

lemma in_litstr:
  assumes "s \<noteq> []" "CHR 0x00 \<notin> set s"
  shows "in_text t (jsonw_litstr t s json)"
proof (cases json)
  case None
  then show ?thesis by (simp add: jsonw_litstr_def)
next
  case (Some j)
  show ?thesis
  proof (cases "map (peek t) [j ..< j + length s] = s")
    case False
    with Some show ?thesis by (simp add: jsonw_litstr_def)
  next
    case True
    from assms(1) have n: "length s - 1 < length s" by (cases s) simp_all
    from True have "map (peek t) [j ..< j + length s] ! (length s - 1) = s ! (length s - 1)"
      by simp
    with n have "peek t (j + (length s - 1)) = s ! (length s - 1)" by simp
    moreover from n have "s ! (length s - 1) \<in> set s" by (intro nth_mem)
    ultimately have "peek t (j + (length s - 1)) \<noteq> CHR 0x00" using assms(2) by metis
    then have "j + (length s - 1) < length t" by (rule peek_nonzero)
    with n have "j + length s \<le> length t" by simp
    with Some True show ?thesis by (simp add: jsonw_litstr_def)
  qed
qed

lemma in_boolean: "in_text t (fst (jsonw_boolean t b json))"
  using in_litstr [of "''true''" t json] in_litstr [of "''false''" t json]
  by (auto simp: jsonw_boolean_def split: option.splits)

lemma isdigit_inside: "isdigit (peek t j) \<Longrightarrow> j < length t"
  by (rule peek_nonzero) (auto simp: isdigit_def)

lemma digits_double_le: "j \<le> length t \<Longrightarrow> snd (digits_double t v j) \<le> length t"
proof (induction t v j rule: digits_double.induct)
  case (1 t v j)
  show ?case
  proof (cases "isdigit (peek t j)")
    case True
    with 1 isdigit_inside [of t j] show ?thesis by (subst digits_double.simps) simp
  next
    case False
    with 1 show ?thesis by (subst digits_double.simps) simp
  qed
qed

lemma digits_ushort_le: "j \<le> length t \<Longrightarrow> snd (digits_ushort t v j) \<le> length t"
proof (induction t v j rule: digits_ushort.induct)
  case (1 t v j)
  show ?case
  proof (cases "isdigit (peek t j)")
    case True
    with 1 isdigit_inside [of t j] show ?thesis by (subst digits_ushort.simps) simp
  next
    case False
    with 1 show ?thesis by (subst digits_ushort.simps) simp
  qed
qed

lemma peek_eq_inside: "peek t j = c \<Longrightarrow> c \<noteq> CHR 0x00 \<Longrightarrow> Suc j \<le> length t"
  using peek_nonzero [of t j] by simp

lemma number_sign_le: "number_sign t j = (sg, j') \<Longrightarrow> j \<le> length t \<Longrightarrow> j' \<le> length t"
  by (auto simp: number_sign_def split: if_splits dest: peek_eq_inside)

lemma number_int_le: "number_int t j = Some (s, j') \<Longrightarrow> j \<le> length t \<Longrightarrow> j' \<le> length t"
  using digits_double_le [of j t "Fin 0"]
  by (auto simp: number_int_def DIGIT_PLUS_double_def split: if_splits dest: peek_eq_inside)

lemma number_frac_le: "number_frac t s j = Some (s', sh, j') \<Longrightarrow> j \<le> length t \<Longrightarrow> j' \<le> length t"
  using digits_double_le [of "Suc j" t s]
  by (auto simp: number_frac_def DIGIT_PLUS_double_def split: if_splits prod.splits
      dest: peek_eq_inside)

lemma number_exp_le:
  assumes "number_exp t j = Some (e, j')" "j \<le> length t"
  shows "j' \<le> length t"
proof (cases "peek t j = CHR ''e'' \<or> peek t j = CHR ''E''")
  case False
  with assms show ?thesis by (simp add: number_exp_def)
next
  case True
  then have 1: "Suc j \<le> length t" by (auto dest: peek_eq_inside)
  show ?thesis
  proof (cases "peek t (Suc j) = CHR ''-'' \<or> peek t (Suc j) = CHR ''+''")
    case True
    then have "Suc (Suc j) \<le> length t" by (auto dest: peek_eq_inside)
    with assms(1) \<open>peek t j = CHR ''e'' \<or> peek t j = CHR ''E''\<close> True
      digits_ushort_le [of "Suc (Suc j)" t 0]
    show ?thesis
      by (auto simp: number_exp_def DIGIT_PLUS_ushort_def split: if_splits prod.splits)
  next
    case False
    with assms(1) \<open>peek t j = CHR ''e'' \<or> peek t j = CHR ''E''\<close> 1 digits_ushort_le [of "Suc j" t 0]
    show ?thesis
      by (auto simp: number_exp_def DIGIT_PLUS_ushort_def split: if_splits prod.splits)
  qed
qed

lemma in_number:
  assumes "in_text t json"
  shows "in_text t (fst (jsonw_number t num json))"
proof (cases json)
  case None
  then show ?thesis by (simp add: jsonw_number_None)
next
  case (Some j)
  show ?thesis
  proof (cases "fst (jsonw_number t num (Some j))")
    case None
    with Some show ?thesis by simp
  next
    case res: (Some j')
    obtain sg j1 where s: "number_sign t j = (sg, j1)" by (cases "number_sign t j")
    from res s obtain s1 j2 where i: "number_int t j1 = Some (s1, j2)"
      by (auto simp: jsonw_number_def split: option.splits)
    from res s i obtain s2 sh j3 where f: "number_frac t s1 j2 = Some (s2, sh, j3)"
      by (auto simp: jsonw_number_def split: option.splits)
    from res s i f obtain e j4 where x: "number_exp t j3 = Some (e, j4)"
      by (auto simp: jsonw_number_def split: option.splits)
    from res s i f x have "j' = j4"
      by (auto simp: jsonw_number_def split: option.splits prod.splits)
    moreover from assms Some have "j \<le> length t" by simp
    note number_exp_le [OF x number_frac_le [OF f number_int_le [OF i number_sign_le [OF s this]]]]
    ultimately show ?thesis using Some res by simp
  qed
qed

lemma hex_for_le: "hex_for i t cp j = Some (cp', j') \<Longrightarrow> j \<le> length t \<Longrightarrow> j' \<le> length t"
proof (induction i t cp j rule: hex_for.induct)
  case (1 i t cp j)
  show ?case
  proof (cases "i < 4")
    case False
    with "1.prems" show ?thesis by (subst (asm) hex_for.simps) simp
  next
    case True
    note eq = "1.prems"(1) [unfolded hex_for.simps [of i t cp j]]
    have "isdigit (peek t j) \<or> isxdigit (peek t j)"
      using eq True by (auto simp: Let_def split: if_splits)
    then have "peek t j \<noteq> CHR 0x00" by (auto simp: isxdigit_def isdigit_def)
    then have "Suc j \<le> length t" using peek_nonzero [of t j] by simp
    with eq True "1.IH" show ?thesis
      by (auto simp: Let_def split: if_splits)
  qed
qed

lemma in_character:
  assumes "jsonw_character t c json = (Some j', c')"
  shows "j' \<le> length t"
proof (cases json)
  case None
  with assms show ?thesis by (simp add: jsonw_character_None)
next
  case (Some j)
  show ?thesis
  proof (cases "peek t j = CHR 0x5C")
    case False
    with assms Some have "j' = Suc j" "peek t j \<noteq> CHR 0x00"
      by (auto simp: jsonw_character_def split: if_splits)
    then show ?thesis using peek_nonzero [of t j] by simp
  next
    case True
    from assms Some True have "peek t (Suc j) \<noteq> CHR 0x00"
      by (auto simp: jsonw_character_def Let_def split: if_splits)
    then have 2: "Suc (Suc j) \<le> length t" using peek_nonzero [of t "Suc j"] by simp
    with assms Some True hex_for_le [of 0 t 0 "Suc (Suc j)" _ j'] show ?thesis
      by (auto simp: jsonw_character_def Let_def split: if_splits option.splits)
  qed
qed

lemma in_string_for: "in_text t json \<Longrightarrow> in_text t (snd (string_for t n json))"
proof (induction t n json rule: string_for.induct)
  case (1 t n json)
  show ?case
  proof (cases "jsonw_character t (CHR 0x00) json")
    case (Pair r c)
    show ?thesis
    proof (cases r)
      case None
      with Pair "1.prems" show ?thesis by (subst string_for.simps) simp
    next
      case (Some j)
      with Pair in_character [of t "CHR 0x00" json j c] have "in_text t (Some j)" by simp
      with "1.IH" [of j] Pair Some show ?thesis by (subst string_for.simps) simp
    qed
  qed
qed

lemma in_string: "in_text t (fst (jsonw_string t len json))"
proof -
  obtain n j2 where sf: "string_for t 0 (jsonw_beginstr t json) = (n, j2)"
    by (cases "string_for t 0 (jsonw_beginstr t json)")
  have "fst (jsonw_string t len json) = jsonw_endstr t j2"
    using sf by (simp add: jsonw_string_def split: option.splits)
  then show ?thesis by (simp add: jsonw_endstr_def in_litchr)
qed

lemma in_name: "in_text t (jsonw_name t json)"
  by (simp add: jsonw_name_def jsonw_namesep_def in_WSCHRWS)

lemma in_primitive: "in_text t json \<Longrightarrow> in_text t (fst (jsonw_primitive t ty json))"
  using in_litstr [of "''null''" t json] in_boolean [of t False json]
    in_number [of t json "Fin 0"] in_string [of t 0 json]
  by (auto simp: jsonw_primitive_def jsonw_null_def Let_def split: option.splits)

lemma in_parse:
  "in_text t json \<longrightarrow> in_text t (fst (jsonw_value t ty json))"
  "in_text t json \<longrightarrow> in_text t (fst (jsonw_structured t ty json))"
  "in_text t (fst (jsonw_array t len json))"
  "in_text t (map_option snd (array_for t n json))"
  "in_text t (fst (jsonw_object t len json))"
  "in_text t (map_option snd (object_for t n json))"
proof (induct t ty json and t ty json and t len json and t n json and t len json and t n json
    rule: jsonw_value_jsonw_structured_jsonw_array_array_for_jsonw_object_object_for.induct)
  case (1 t ty json)
  show ?case
  proof (cases json)
    case None
    then show ?thesis by (simp add: jsonw_value.simps)
  next
    case (Some j0)
    obtain r ty' where p: "jsonw_primitive t ty json = (r, ty')"
      by (cases "jsonw_primitive t ty json")
    show ?thesis
    proof (cases r)
      case None
      with 1 [OF Some p [symmetric]] p Some show ?thesis
        by (simp add: jsonw_value.simps)
    next
      case (Some j)
      with p in_primitive [of t json ty] \<open>json = Some j0\<close> show ?thesis
        by (simp add: jsonw_value.simps)
    qed
  qed
next
  case (2 t ty json)
  show ?case
  proof (cases "fst (jsonw_array t 0 json) \<noteq> None \<and> jsonw_ty_int JSONW_ARRAY \<noteq> 0")
    case True
    with 2(1) show ?thesis by (simp add: jsonw_structured.simps Let_def)
  next
    case False
    have "fst (jsonw_structured t ty json) = fst (jsonw_object t 0 json)"
      by (simp only: jsonw_structured.simps Let_def if_not_P [OF False] fst_conv)
    with 2(2) [OF refl refl False] show ?thesis by simp
  qed
next
  case (3 t len json)
  show ?case
  proof (cases "jsonw_endarr t (jsonw_beginarr t json)")
    case None
    have "fst (jsonw_array t len json) = map_option snd (array_for t 0 (jsonw_beginarr t json))"
      using None by (simp add: jsonw_array.simps Let_def split: option.splits)
    with 3 [OF refl None] show ?thesis by simp
  next
    case (Some j)
    then have "fst (jsonw_array t len json) = jsonw_endarr t (jsonw_beginarr t json)"
      by (simp add: jsonw_array.simps Let_def)
    then show ?thesis by (simp add: jsonw_endarr_def in_WSCHRWS)
  qed
next
  case (4 t n json)
  show ?case
  proof (cases "fst (jsonw_value t JSONW_NULL json)")
    case None
    then show ?thesis by (simp add: array_for.simps)
  next
    case (Some j1)
    show ?thesis
    proof (cases "jsonw_endarr t (Some j1)")
      case None
      with 4(2) [OF Some None] Some show ?thesis by (simp add: array_for.simps)
    next
      case e: (Some j)
      have "in_text t (jsonw_endarr t (Some j1))" by (simp add: jsonw_endarr_def in_WSCHRWS)
      with e Some show ?thesis by (simp add: array_for.simps)
    qed
  qed
next
  case (5 t len json)
  show ?case
  proof (cases "jsonw_endobj t (jsonw_beginobj t json)")
    case None
    have "fst (jsonw_object t len json) = map_option snd (object_for t 0 (jsonw_beginobj t json))"
      using None by (simp add: jsonw_object.simps Let_def split: option.splits)
    with 5 [OF refl None] show ?thesis by simp
  next
    case (Some j)
    then have "fst (jsonw_object t len json) = jsonw_endobj t (jsonw_beginobj t json)"
      by (simp add: jsonw_object.simps Let_def)
    then show ?thesis by (simp add: jsonw_endobj_def in_WSCHRWS)
  qed
next
  case (6 t n json)
  show ?case
  proof (cases "fst (jsonw_value t JSONW_NULL (jsonw_name t json))")
    case None
    then show ?thesis by (simp add: object_for.simps)
  next
    case (Some j1)
    show ?thesis
    proof (cases "jsonw_endobj t (Some j1)")
      case None
      with 6(2) [OF Some None] Some show ?thesis by (simp add: object_for.simps)
    next
      case e: (Some j)
      have "in_text t (jsonw_endobj t (Some j1))" by (simp add: jsonw_endobj_def in_WSCHRWS)
      with e Some show ?thesis by (simp add: object_for.simps)
    qed
  qed
qed

lemma in_value: "in_text t json \<Longrightarrow> in_text t (fst (jsonw_value t ty json))"
  using in_parse(1) by blast

lemma in_jsonw_text: "in_text t json \<Longrightarrow> in_text t (fst (jsonw_text t ty json))"
  by (cases "jsonw_value t ty (jsonw_ws t json)")
     (use in_value [of t "jsonw_ws t json" ty] in \<open>simp add: jsonw_text_def in_ws\<close>)

section \<open>Whole documents\<close>

lemma jsonw_text_fst: "fst (jsonw_text t ty json) = jsonw_ws t (fst (jsonw_value t ty (jsonw_ws t json)))"
  by (simp add: jsonw_text_def split: prod.splits)

lemma jsonw_text_fst_any: "fst (jsonw_text t ty json) = fst (jsonw_text t ty' json)"
  using jsonw_value_fst [of t ty "jsonw_ws t json" ty'] by (simp add: jsonw_text_fst)

lemma ws_while_at_end: "peek t (ws_while t j) \<notin> set ws_chars"
proof (induction t j rule: ws_while.induct)
  case (1 t j)
  show ?case
  proof (cases "peek t j \<noteq> CHR 0x00 \<and> strchr ws_chars (peek t j)")
    case True
    with 1 show ?thesis by (simp add: ws_while_step)
  next
    case False
    then have "peek t j \<notin> set ws_chars" by (auto simp: strchr_def ws_chars_def)
    with False show ?thesis by (simp add: ws_while_stop)
  qed
qed

text \<open>
  Claim C2. A document is valid, as \<^verbatim>\<open>test.c\<close> checks it, if and only if \<^verbatim>\<open>jsonw_text\<close>
  succeeds and returns the cursor at the end of the input. Otherwise \<^verbatim>\<open>jsonw_text\<close> fails
  or stops before the end, at a byte that is not whitespace; the cursor is never behind
  the end. On \<^verbatim>\<open>1 2\<close> it stops at \<^verbatim>\<open>2\<close>, so the document is not valid, though \<^verbatim>\<open>1\<close>
  alone parses as a value and is a valid document.
\<close>

theorem whole_document_validity:
  "(valid buf \<longleftrightarrow> fst (jsonw_text buf ty (Some 0)) = Some (length buf))
   \<and> (\<not> valid buf \<longleftrightarrow>
        fst (jsonw_text buf ty (Some 0)) = None
        \<or> (\<exists>e. fst (jsonw_text buf ty (Some 0)) = Some e \<and> e < length buf
                \<and> buf ! e \<notin> set ws_chars))
   \<and> \<not> valid ''1 2''
   \<and> fst (jsonw_text ''1 2'' ty (Some 0)) = Some 2
   \<and> fst (jsonw_value ''1'' ty (Some 0)) = Some (length ''1'')
   \<and> valid ''1''"
proof -
  have v: "valid buf \<longleftrightarrow> fst (jsonw_text buf ty (Some 0)) = Some (length buf)"
    using jsonw_text_fst_any [of buf JSONW_NULL "Some 0" ty]
    by (auto simp: valid_def split: option.splits)
  have i: "in_text buf (fst (jsonw_text buf ty (Some 0)))"
    by (rule in_jsonw_text) simp
  have w: "buf ! e \<notin> set ws_chars" if "fst (jsonw_text buf ty (Some 0)) = Some e" "e < length buf" for e
  proof -
    from that(1) obtain j where "e = ws_while buf j"
      by (cases "fst (jsonw_value buf ty (jsonw_ws buf (Some 0)))")
         (auto simp: jsonw_text_fst jsonw_ws_def)
    with ws_while_at_end [of buf j] that(2) show ?thesis by (simp add: peek_def)
  qed
  have n: "\<not> valid buf \<longleftrightarrow>
        fst (jsonw_text buf ty (Some 0)) = None
        \<or> (\<exists>e. fst (jsonw_text buf ty (Some 0)) = Some e \<and> e < length buf
                \<and> buf ! e \<notin> set ws_chars)"
    unfolding v using i w by (cases "fst (jsonw_text buf ty (Some 0))") auto
  have e1: "\<not> valid ''1 2''" by code_simp
  have e2: "fst (jsonw_text ''1 2'' ty (Some 0)) = Some 2" by code_simp
  have e3: "fst (jsonw_value ''1'' ty (Some 0)) = Some (length ''1'')" by code_simp
  have e4: "valid ''1''" by code_simp
  from v n e1 e2 e3 e4 show ?thesis by blast
qed

end
